theory Spec2Isabelle
  imports Complex_Main
begin

section \<open>DSA signing and verification (dsa-2.0.js, KJUR.crypto.DSA)\<close>

text \<open>
  A shallow embedding of \<^verbatim>\<open>src/dsa-2.0.js\<close>.  The file defines one class,
  \<^verbatim>\<open>KJUR.crypto.DSA\<close>, with the methods \<^verbatim>\<open>setPrivate\<close>, \<^verbatim>\<open>setPublic\<close>,
  \<^verbatim>\<open>signWithMessageHash\<close>, \<^verbatim>\<open>verifyWithMessageHash\<close> and \<^verbatim>\<open>parseASN1Signature\<close>.
  Everything else it calls (the \<^verbatim>\<open>BigInteger\<close> class, the random source
  \<^verbatim>\<open>KJUR.crypto.Util.getRandomBigIntegerMinToMax\<close>, the encoder
  \<^verbatim>\<open>KJUR.asn1.ASN1Util.jsonToASN1HEX\<close> and the decoder \<^verbatim>\<open>ASN1HEX.getVbyList\<close>)
  lives in other files of the library, which are not part of \<^verbatim>\<open>src/\<close>; those parts
  are modelled from the specification and marked as such.

  JavaScript exceptions are values of the type \<open>error\<close>; a method returns
  \<open>error + result\<close>, with \<open>Inl\<close> for a throw.
\<close>

datatype error =
    TypeError             \<comment> \<open>a method called on \<^verbatim>\<open>null\<close>\<close>
  | EmptyRange            \<comment> \<open>the random source asked for a value of an empty range\<close>
  | NoInverse             \<comment> \<open>a modular inverse that does not exist\<close>
  | EncodingError         \<comment> \<open>the encoder cannot represent the value\<close>
  | DecodingError         \<comment> \<open>thrown inside the decoder, caught by \<^verbatim>\<open>parseASN1Signature\<close>\<close>
  | InvalidSignature      \<comment> \<open>\<^verbatim>\<open>throw "invalid DSA signature"\<close>\<close>
  | MalformedSignature    \<comment> \<open>\<^verbatim>\<open>throw "malformed ASN.1 DSA signature"\<close>\<close>


subsection \<open>The arbitrary-precision integers\<close>

text \<open>
  Modelled from the spec: the \<^verbatim>\<open>BigInteger\<close> class (the spec's "arbitrary-precision
  integer type supporting modular exponentiation, modular inverse, addition,
  multiplication, modulus, and comparison") is missing from \<^verbatim>\<open>src/\<close>.  A
  \<^verbatim>\<open>BigInteger\<close> is an \<open>int\<close>; \<^verbatim>\<open>add\<close>, \<^verbatim>\<open>subtract\<close>, \<^verbatim>\<open>multiply\<close> and \<^verbatim>\<open>mod\<close>
  are \<open>+\<close>, \<open>-\<close>, \<open>*\<close> and \<open>mod\<close> of \<open>int\<close> (\<open>mod\<close> is the least non-negative
  residue for a positive modulus, the only moduli the properties below rely on).
\<close>

text \<open>
  Modelled from the spec: \<^verbatim>\<open>a.compareTo(b)\<close> of the missing \<^verbatim>\<open>BigInteger\<close>,
  negative, zero or positive as \<open>a\<close> is below, equal to or above \<open>b\<close>.
\<close>

definition compareTo :: "int \<Rightarrow> int \<Rightarrow> int" where
  "compareTo a b = (if a < b then - 1 else if a = b then 0 else 1)"

text \<open>
  Modelled from the spec: \<^verbatim>\<open>b.modPow(e, m)\<close> of the missing \<^verbatim>\<open>BigInteger\<close>, modular
  exponentiation.  The exponents of the source are never negative: \<open>k\<close> is at
  least 2, and \<open>u1\<close> and \<open>u2\<close> are residues of a positive \<open>q\<close>.
\<close>

definition modPow :: "int \<Rightarrow> int \<Rightarrow> int \<Rightarrow> int" where
  "modPow b e m = b ^ nat e mod m"

text \<open>
  Modelled from the spec: \<^verbatim>\<open>a.modInverse(m)\<close> of the missing \<^verbatim>\<open>BigInteger\<close>, the
  \<open>w\<close> of \<open>0 \<le> w < m\<close> with \<open>a * w mod m = 1\<close>.  The spec only names the operation
  and says nothing of an \<open>a\<close> that has no inverse modulo \<open>m\<close>: the model has no
  value there (\<open>None\<close>).
\<close>

definition modInverse :: "int \<Rightarrow> int \<Rightarrow> int option" where
  "modInverse a m = List.find (\<lambda>w. (a * w) mod m = 1) [0..m - 1]"

text \<open>
  Modelled from the spec: \<^verbatim>\<open>a.bitLength()\<close> of the missing \<^verbatim>\<open>BigInteger\<close>, the
  number of bits of the minimal two's-complement representation, without the sign
  bit.
\<close>

fun nbits :: "nat \<Rightarrow> nat" where
  "nbits n = (if n = 0 then 0 else Suc (nbits (n div 2)))"

declare nbits.simps [simp del]

definition bitLength :: "int \<Rightarrow> nat" where
  "bitLength a = (if a < 0 then nbits (nat (- a - 1)) else nbits (nat a))"

text \<open>
  Modelled from the spec: the value of a hexadecimal digit (\<^verbatim>\<open>intAt\<close> of the missing
  integer library), and \<^verbatim>\<open>new BigInteger(s, 16)\<close>: the digits of \<open>s\<close> read as a big-endian number.  The spec
  speaks of hexadecimal strings only; a character that is no hexadecimal digit
  contributes nothing.
\<close>

definition intAt :: "char \<Rightarrow> nat option" where
  "intAt c =
     (let n = (of_char c :: nat) in
      if 48 \<le> n \<and> n \<le> 57 then Some (n - 48)
      else if 97 \<le> n \<and> n \<le> 102 then Some (n - 87)
      else if 65 \<le> n \<and> n \<le> 70 then Some (n - 55)
      else None)"

definition fromRadix16 :: "nat \<Rightarrow> string \<Rightarrow> nat" where
  "fromRadix16 acc s =
     foldl (\<lambda>a c. case intAt c of None \<Rightarrow> a | Some d \<Rightarrow> 16 * a + d) acc s"

definition new_BigInteger16 :: "string \<Rightarrow> int" where
  "new_BigInteger16 s = int (fromRadix16 0 s)"


subsection \<open>JavaScript strings\<close>

text \<open>
  \<^verbatim>\<open>String.prototype.substr(start, length)\<close> of the language standard.  A JavaScript
  number is a rational here: the source passes the quotient \<^verbatim>\<open>q.bitLength() / 4\<close>,
  which need not be whole, and \<^verbatim>\<open>substr\<close> truncates its arguments toward zero.
\<close>

definition ToIntegerOrInfinity :: "rat \<Rightarrow> int" where
  "ToIntegerOrInfinity v = (if v < 0 then \<lceil>v\<rceil> else \<lfloor>v\<rfloor>)"

definition substr :: "string \<Rightarrow> rat \<Rightarrow> rat \<Rightarrow> string" where
  "substr S start len =
     (let size = int (length S);
          relStart = ToIntegerOrInfinity start;
          intStart = (if relStart < 0 then max (size + relStart) 0 else min relStart size);
          intLength = min (max (ToIntegerOrInfinity len) 0) size;
          intEnd = min (intStart + intLength) size
      in take (nat (intEnd - intStart)) (drop (nat intStart) S))"


subsection \<open>The signature container\<close>

text \<open>
  Modelled from the spec: the encoder \<^verbatim>\<open>KJUR.asn1.ASN1Util.jsonToASN1HEX\<close> and the
  decoder \<^verbatim>\<open>ASN1HEX.getVbyList\<close> are missing from \<^verbatim>\<open>src/\<close>.  The spec describes "a
  binary container encoding an ordered sequence of two unsigned big integers (r, s),
  each length-prefixed, matching a standard two-field integer-sequence binary encoding
  consumed/produced via hexadecimal string representation at the boundary", the
  integers in "minimal big-endian two's-complement-free unsigned representation with a
  leading zero byte inserted whenever the high bit would otherwise be misinterpreted as
  a sign bit".  The standard encoding is DER: tag \<^verbatim>\<open>30\<close> for the sequence, tag \<^verbatim>\<open>02\<close> (the
  tag the source checks for) for an integer, and a definite length in the short form
  below 128 and in the long form from there on.  A byte is a \<open>nat\<close> below 256.
\<close>

definition hexchar :: "nat \<Rightarrow> char" where
  "hexchar d = ''0123456789abcdef'' ! (d mod 16)"

definition hex_of_byte :: "nat \<Rightarrow> string" where
  "hex_of_byte b = [hexchar (b div 16), hexchar (b mod 16)]"

definition hex_of_bytes :: "nat list \<Rightarrow> string" where
  "hex_of_bytes bs = concat (map hex_of_byte bs)"

fun bytes_of_hex :: "string \<Rightarrow> nat list option" where
  "bytes_of_hex [] = Some []"
| "bytes_of_hex [c] = None"
| "bytes_of_hex (c1 # c2 # cs) =
     (case intAt c1 of None \<Rightarrow> None
      | Some a \<Rightarrow> (case intAt c2 of None \<Rightarrow> None
        | Some b \<Rightarrow> (case bytes_of_hex cs of None \<Rightarrow> None
          | Some bs \<Rightarrow> Some ((16 * a + b) # bs))))"

text \<open>
  Modelled from the spec: the minimal big-endian bytes of a number (one byte for 0),
  and their value.
\<close>

fun be_bytes :: "nat \<Rightarrow> nat list" where
  "be_bytes n = (if n < 256 then [n] else be_bytes (n div 256) @ [n mod 256])"

declare be_bytes.simps [simp del]

definition be_val :: "nat list \<Rightarrow> nat" where
  "be_val bs = foldl (\<lambda>a b. 256 * a + b) 0 bs"

text \<open>
  Modelled from the spec: the length octets ("each length-prefixed"), one byte below 128; otherwise \<open>128 + k\<close> followed by the \<open>k\<close>
  bytes of the length, for \<open>k \<le> 126\<close>.  A longer length has no encoding.
\<close>

definition der_len :: "nat \<Rightarrow> nat list option" where
  "der_len n =
     (if n < 128 then Some [n]
      else if length (be_bytes n) \<le> 126 then Some ((128 + length (be_bytes n)) # be_bytes n)
      else None)"

definition tlv :: "nat \<Rightarrow> nat list \<Rightarrow> nat list option" where
  "tlv t v = (case der_len (length v) of None \<Rightarrow> None | Some l \<Rightarrow> Some (t # l @ v))"

text \<open>
  Modelled from the spec: the content octets of a non-negative integer, with the
  leading zero byte where the high bit is set.
\<close>

definition int_content :: "nat \<Rightarrow> nat list" where
  "int_content n = (if 128 \<le> hd (be_bytes n) then 0 # be_bytes n else be_bytes n)"

text \<open>
  Modelled from the spec: the missing encoder \<^verbatim>\<open>jsonToASN1HEX\<close> and its argument; the
  source passes \<^verbatim>\<open>{"seq": [{"int": {"bigint": r}}, {"int": {"bigint": s}}]}\<close>.  A
  negative integer has no unsigned representation and is not encoded.
\<close>

datatype asn1json = Seq "asn1json list" | Int_bigint int

fun concat_options :: "'a list option list \<Rightarrow> 'a list option" where
  "concat_options [] = Some []"
| "concat_options (None # xs) = None"
| "concat_options (Some x # xs) =
     (case concat_options xs of None \<Rightarrow> None | Some ys \<Rightarrow> Some (x @ ys))"

fun der_bytes :: "asn1json \<Rightarrow> nat list option" where
  "der_bytes (Int_bigint n) = (if n < 0 then None else tlv 2 (int_content (nat n)))"
| "der_bytes (Seq items) =
     (case concat_options (map der_bytes items) of None \<Rightarrow> None
      | Some content \<Rightarrow> tlv 48 content)"

definition jsonToASN1HEX :: "asn1json \<Rightarrow> error + string" where
  "jsonToASN1HEX j =
     (case der_bytes j of None \<Rightarrow> Inl EncodingError | Some bs \<Rightarrow> Inr (hex_of_bytes bs))"


text \<open>
  Modelled from the spec: the well-formed containers.  The spec's decoder "parses the
  same structure; fails with MalformedSignature if the byte stream is not a
  two-element integer sequence (wrong tag, wrong count, truncated length, trailing
  data)".  \<open>decode_integer_pair\<close> is that strict reading of a byte string: a sequence
  (tag 48) whose content is exactly two integers (tag 2), each with at least one
  content octet, with the length octets the encoder writes and nothing after it.
  \<open>signature_container\<close> says the same as a grammar.  Neither is part of the code:
  they say what the claims mean by a well-formed container.
\<close>

definition parse_len :: "nat list \<Rightarrow> (nat \<times> nat list) option" where
  "parse_len bs =
     (case bs of [] \<Rightarrow> None
      | b # rest \<Rightarrow>
          if b < 128 then Some (b, rest)
          else let k = b - 128; n = be_val (take k rest) in
               if k \<le> length rest \<and> der_len n = Some (b # take k rest)
               then Some (n, drop k rest) else None)"

definition parse_tlv :: "nat list \<Rightarrow> (nat \<times> nat list \<times> nat list) option" where
  "parse_tlv bs =
     (case bs of [] \<Rightarrow> None
      | t # bs' \<Rightarrow>
          (case parse_len bs' of None \<Rightarrow> None
           | Some (n, rest) \<Rightarrow>
               if length rest < n then None else Some (t, take n rest, drop n rest)))"

definition decode_integer_pair :: "nat list \<Rightarrow> (nat list \<times> nat list) option" where
  "decode_integer_pair bs =
     (case parse_tlv bs of None \<Rightarrow> None
      | Some (t, content, trailing) \<Rightarrow>
          if t \<noteq> 48 \<or> trailing \<noteq> [] then None
          else (case parse_tlv content of None \<Rightarrow> None
            | Some (t1, v1, rest1) \<Rightarrow>
                (case parse_tlv rest1 of None \<Rightarrow> None
                 | Some (t2, v2, rest2) \<Rightarrow>
                     if t1 = 2 \<and> t2 = 2 \<and> rest2 = [] \<and> v1 \<noteq> [] \<and> v2 \<noteq> []
                     then Some (v1, v2) else None)))"

inductive signature_container :: "string \<Rightarrow> bool" where
  "v1 \<noteq> [] \<Longrightarrow> v2 \<noteq> [] \<Longrightarrow> tlv 2 v1 = Some e1 \<Longrightarrow> tlv 2 v2 = Some e2 \<Longrightarrow>
   tlv 48 (e1 @ e2) = Some bs \<Longrightarrow> bytes_of_hex h = Some bs \<Longrightarrow> signature_container h"

text \<open>
  Modelled from the spec: \<^verbatim>\<open>ASN1HEX.getVbyList(h, currentIndex, nthList, checkingTag)\<close>,
  missing from \<^verbatim>\<open>src/\<close>.  The spec names it among the collaborators, as part of "a
  general binary encoder/decoder for nested integer sequences": a lookup, not a
  validator of signatures.  From the object at \<open>currentIndex\<close> it goes down the list
  \<open>nthList\<close> of child numbers, compares the tag it finds there with \<open>checkingTag\<close> and
  returns the content octets of that object, in hexadecimal.  It throws when there is
  no such child or when the tag differs, and it checks nothing else: not the tag of
  the container, not the number of its children, not what follows it.

  The bytes of \<open>h\<close> are its pairs of hexadecimal digits, up to the first character that
  is none.  A position in \<open>h\<close> is the list of the bytes from there on.  \<open>read_header\<close>
  reads tag and length octets (short form, or long form with the octets present) and
  yields the tag, the size of the header, the length and the bytes after the header.
  The first child of an object starts where its content starts; a further child
  starts where the one before it ends, as long as that is inside the length of the
  object.  Content octets the input does not hold are cut short.
\<close>

fun hex_prefix :: "string \<Rightarrow> nat list" where
  "hex_prefix [] = []"
| "hex_prefix [c] = []"
| "hex_prefix (c1 # c2 # cs) =
     (case intAt c1 of None \<Rightarrow> []
      | Some a \<Rightarrow> (case intAt c2 of None \<Rightarrow> []
        | Some b \<Rightarrow> (16 * a + b) # hex_prefix cs))"

definition read_header :: "nat list \<Rightarrow> (nat \<times> nat \<times> nat \<times> nat list) option" where
  "read_header bs =
     (case bs of [] \<Rightarrow> None
      | t # bs' \<Rightarrow>
          (case bs' of [] \<Rightarrow> None
           | b # rest \<Rightarrow>
               if b < 128 then Some (t, 2, b, rest)
               else let k = b - 128 in
                    if 1 \<le> k \<and> k \<le> length rest
                    then Some (t, 2 + k, be_val (take k rest), drop k rest)
                    else None))"

primrec nth_child :: "nat \<Rightarrow> nat list \<Rightarrow> nat \<Rightarrow> nat \<Rightarrow> nat list option" where
  "nth_child 0 bs off len = Some bs"
| "nth_child (Suc i) bs off len =
     (case read_header bs of None \<Rightarrow> None
      | Some (t, hsize, n, body) \<Rightarrow>
          if len \<le> off + hsize + n then None
          else nth_child i (drop n body) (off + hsize + n) len)"

fun getIdxbyList :: "nat list \<Rightarrow> nat list \<Rightarrow> nat list option" where
  "getIdxbyList bs [] = Some bs"
| "getIdxbyList bs (i # nthList) =
     (case read_header bs of None \<Rightarrow> None
      | Some (t, hsize, n, body) \<Rightarrow>
          (case nth_child i body 0 n of None \<Rightarrow> None
           | Some child \<Rightarrow> getIdxbyList child nthList))"

definition getV :: "nat list \<Rightarrow> nat list" where
  "getV bs = (case read_header bs of None \<Rightarrow> [] | Some (t, hsize, n, body) \<Rightarrow> take n body)"

definition getVbyList :: "string \<Rightarrow> nat \<Rightarrow> nat list \<Rightarrow> string \<Rightarrow> error + string" where
  "getVbyList h currentIndex nthList checkingTag =
     (case getIdxbyList (hex_prefix (drop currentIndex h)) nthList of
        None \<Rightarrow> Inl DecodingError
      | Some obj \<Rightarrow>
          (case obj of [] \<Rightarrow> Inl DecodingError
           | t # bs \<Rightarrow>
               if hex_of_byte t \<noteq> checkingTag then Inl DecodingError
               else Inr (hex_of_bytes (getV obj))))"


subsection \<open>The random source\<close>

text \<open>
  Modelled from the spec: \<^verbatim>\<open>KJUR.crypto.Util.getRandomBigIntegerMinToMax\<close>, "a
  cryptographically secure random integer generator bounded to an inclusive range", is
  missing from \<^verbatim>\<open>src/\<close>.  The source of randomness is an infinite tape of numbers; a
  call maps the next one into the range and moves on.  An empty range has no value
  to return.  Every call is recorded with the range it asked for.
\<close>

record rng =
  entropy :: "nat \<Rightarrow> nat"
  drawn :: nat
  requests :: "(int \<times> int) list"

definition getRandomBigIntegerMinToMax :: "int \<Rightarrow> int \<Rightarrow> rng \<Rightarrow> (error + int) \<times> rng" where
  "getRandomBigIntegerMinToMax biMin biMax rs =
     (let rs' = rs\<lparr>requests := requests rs @ [(biMin, biMax)]\<rparr> in
      if biMax < biMin then (Inl EmptyRange, rs')
      else (Inr (biMin + int (entropy rs (drawn rs)) mod (biMax - biMin + 1)),
            rs'\<lparr>drawn := drawn rs + 1\<rparr>))"


subsection \<open>The key object\<close>

text \<open>
  The object the constructor \<^verbatim>\<open>KJUR.crypto.DSA\<close> builds: every number is \<^verbatim>\<open>null\<close>
  (\<open>None\<close>) until \<^verbatim>\<open>setPrivate\<close> or \<^verbatim>\<open>setPublic\<close> assigns it.  \<^verbatim>\<open>isPrivate\<close> and
  \<^verbatim>\<open>isPublic\<close> are undefined (\<open>False\<close>) until a setter makes them \<^verbatim>\<open>true\<close>.
\<close>

record DSA =
  dsa_p :: "int option"
  dsa_q :: "int option"
  dsa_g :: "int option"
  dsa_y :: "int option"
  dsa_x :: "int option"
  dsa_type :: string
  isPrivate :: bool
  isPublic :: bool

definition new_DSA :: DSA where
  "new_DSA = \<lparr>dsa_p = None, dsa_q = None, dsa_g = None, dsa_y = None, dsa_x = None,
              dsa_type = ''DSA'', isPrivate = False, isPublic = False\<rparr>"

definition setPrivate ::
  "DSA \<Rightarrow> int option \<Rightarrow> int option \<Rightarrow> int option \<Rightarrow> int option \<Rightarrow> int option \<Rightarrow> DSA" where
  "setPrivate this p q g y x =
     this\<lparr>isPrivate := True, dsa_p := p, dsa_q := q, dsa_g := g, dsa_y := y, dsa_x := x\<rparr>"

definition setPublic ::
  "DSA \<Rightarrow> int option \<Rightarrow> int option \<Rightarrow> int option \<Rightarrow> int option \<Rightarrow> DSA" where
  "setPublic this p q g y =
     this\<lparr>isPublic := True, dsa_p := p, dsa_q := q, dsa_g := g, dsa_y := y, dsa_x := None\<rparr>"

text \<open>
  What a method can read and write: the object it is called on and the random source.
  A method takes the state and returns its result with the state it leaves.
\<close>

record state =
  self :: DSA
  prng :: rng


subsection \<open>parseASN1Signature\<close>

text \<open>
  Lines 197 to 205 of the source: the two integers are read with \<^verbatim>\<open>getVbyList\<close>
  and \<^verbatim>\<open>new BigInteger(_, 16)\<close> inside a \<^verbatim>\<open>try\<close>; whatever is thrown there is
  caught and replaced by \<^verbatim>\<open>"malformed ASN.1 DSA signature"\<close>.
\<close>

definition parseASN1Signature :: "string \<Rightarrow> error + (int \<times> int)" where
  "parseASN1Signature hSigVal =
     (case getVbyList hSigVal 0 [0] ''02'' of
        Inl ex \<Rightarrow> Inl MalformedSignature
      | Inr hR \<Rightarrow>
          (case getVbyList hSigVal 0 [1] ''02'' of
             Inl ex \<Rightarrow> Inl MalformedSignature
           | Inr hS \<Rightarrow> Inr (new_BigInteger16 hR, new_BigInteger16 hS)))"


subsection \<open>signWithMessageHash\<close>

text \<open>
  Lines 107 to 135 of the source.  \<open>sign_z\<close> is step 2 (lines 121 and 122), \<open>sign_rs\<close>
  steps 3 and 4 (lines 125 and 128) for the \<open>k\<close> that step 1 drew: \<open>z\<close> from the
  digest, \<open>r = (g^k mod p) mod q\<close> and \<open>s = k^-1 (z + x r) mod q\<close>.  The method itself
  draws \<open>k\<close> (lines 116 and 117), computes the pair and encodes it (lines 131 to 134).
  A field that is \<^verbatim>\<open>null\<close> raises a \<^verbatim>\<open>TypeError\<close> where the source first calls a
  method on it.  The source reads \<^verbatim>\<open>this.y\<close> and does not use it.
\<close>

definition sign_z :: "int \<Rightarrow> string \<Rightarrow> int" where
  "sign_z q sHashHex =
     (let hZ = substr sHashHex 0 (of_nat (bitLength q) / 4) in new_BigInteger16 hZ)"

definition sign_rs :: "DSA \<Rightarrow> int \<Rightarrow> int \<Rightarrow> string \<Rightarrow> error + (int \<times> int)" where
  "sign_rs this q k sHashHex =
     (let z = sign_z q sHashHex in
      case (dsa_g this, dsa_p this) of
        (Some g, Some p) \<Rightarrow>
          (let r = modPow g k p mod q in
           case modInverse k q of None \<Rightarrow> Inl NoInverse
           | Some kinv \<Rightarrow>
               (case dsa_x this of None \<Rightarrow> Inl TypeError
                | Some x \<Rightarrow> Inr (r, (kinv * (z + x * r)) mod q)))
      | _ \<Rightarrow> Inl TypeError)"

definition signWithMessageHash :: "state \<Rightarrow> string \<Rightarrow> (error + string) \<times> state" where
  "signWithMessageHash st sHashHex =
     (case dsa_q (self st) of None \<Rightarrow> (Inl TypeError, st)
      | Some q \<Rightarrow>
          (case getRandomBigIntegerMinToMax (1 + 1) (q - 1) (prng st) of
             (Inl e, rs) \<Rightarrow> (Inl e, st\<lparr>prng := rs\<rparr>)
           | (Inr k, rs) \<Rightarrow>
               (case sign_rs (self st) q k sHashHex of
                  Inl e \<Rightarrow> (Inl e, st\<lparr>prng := rs\<rparr>)
                | Inr (r, s) \<Rightarrow>
                    (jsonToASN1HEX (Seq [Int_bigint r, Int_bigint s]), st\<lparr>prng := rs\<rparr>))))"


subsection \<open>verifyWithMessageHash\<close>

text \<open>
  Lines 147 to 186 of the source.  \<open>verify_z\<close> is step 2 (lines 160 and 161).  The
  range checks of steps 3.1 and 3.2 are the source's: a throw when
  \<^verbatim>\<open>BigInteger.ZERO.compareTo(r) > 0 || r.compareTo(q) > 0\<close>, and the same for \<open>s\<close>.
\<close>

definition verify_z :: "int \<Rightarrow> string \<Rightarrow> int" where
  "verify_z q sHashHex =
     (let hZ = substr sHashHex 0 (of_nat (bitLength q) / 4) in new_BigInteger16 hZ)"

text \<open>Steps 2 to 8 of the source, for the pair \<open>(r, s)\<close> that step 1 parsed.\<close>

definition verify_rs :: "DSA \<Rightarrow> string \<Rightarrow> int \<Rightarrow> int \<Rightarrow> error + bool" where
  "verify_rs this sHashHex r s =
     (case dsa_q this of None \<Rightarrow> Inl TypeError
      | Some q \<Rightarrow>
          (let z = verify_z q sHashHex in
           if compareTo 0 r > 0 \<or> compareTo r q > 0 then Inl InvalidSignature
           else if compareTo 0 s > 0 \<or> compareTo s q > 0 then Inl InvalidSignature
           else (case modInverse s q of None \<Rightarrow> Inl NoInverse
             | Some w \<Rightarrow>
                 (let u1 = (z * w) mod q;
                      u2 = (r * w) mod q in
                  case (dsa_g this, dsa_p this, dsa_y this) of
                    (Some g, Some p, Some y) \<Rightarrow>
                      (let v = ((modPow g u1 p * modPow y u2 p) mod p) mod q in
                       Inr (compareTo v r = 0))
                  | _ \<Rightarrow> Inl TypeError))))"

definition verifyWithMessageHash :: "state \<Rightarrow> string \<Rightarrow> string \<Rightarrow> (error + bool) \<times> state" where
  "verifyWithMessageHash st sHashHex hSigVal =
     (case parseASN1Signature hSigVal of
        Inl e \<Rightarrow> (Inl e, st)
      | Inr (r, s) \<Rightarrow> (verify_rs (self st) sHashHex r s, st))"



subsection \<open>The data model of the spec\<close>

text \<open>
  Domain parameters are valid when \<open>p\<close> and \<open>q\<close> are prime, \<open>q\<close> divides \<open>p - 1\<close>,
  \<open>1 < g < p\<close> and \<open>g^q mod p = 1\<close>.  A private key has \<open>0 < x < q\<close> and
  \<open>y = g^x mod p\<close>; a public key has a \<open>y\<close> of that form and no \<open>x\<close> is needed.
\<close>

definition is_prime :: "int \<Rightarrow> bool" where
  "is_prime n = (1 < n \<and> (\<forall>d\<in>{2..n - 1}. \<not> d dvd n))"

definition domain_parameters :: "int \<Rightarrow> int \<Rightarrow> int \<Rightarrow> bool" where
  "domain_parameters p q g =
     (is_prime p \<and> is_prime q \<and> q dvd p - 1 \<and> 1 < g \<and> g < p \<and> g ^ nat q mod p = 1)"

definition private_key :: "DSA \<Rightarrow> bool" where
  "private_key this =
     (case (dsa_p this, dsa_q this, dsa_g this, dsa_y this, dsa_x this) of
        (Some p, Some q, Some g, Some y, Some x) \<Rightarrow>
          domain_parameters p q g \<and> 0 < x \<and> x < q \<and> y = g ^ nat x mod p
      | _ \<Rightarrow> False)"

definition public_key :: "DSA \<Rightarrow> bool" where
  "public_key this =
     (case (dsa_p this, dsa_q this, dsa_g this, dsa_y this) of
        (Some p, Some q, Some g, Some y) \<Rightarrow>
          domain_parameters p q g \<and> (\<exists>x\<in>{1..q - 1}. y = g ^ nat x mod p)
      | _ \<Rightarrow> False)"

text \<open>
  The spec's \<open>z\<close>: "the leftmost \<open>min(N, outlen)\<close> bits of the digest, where
  \<open>N = bitlength(q)\<close>, interpreted as a big-endian integer".  A digest of \<open>n\<close>
  hexadecimal digits has \<open>outlen = 4 n\<close> bits.
\<close>

definition leftmost_bits_z :: "int \<Rightarrow> string \<Rightarrow> int" where
  "leftmost_bits_z q sHashHex =
     (let N = bitLength q; outlen = 4 * length sHashHex
      in new_BigInteger16 sHashHex div 2 ^ (outlen - min N outlen))"

text \<open>A hexadecimal string: every character is a hexadecimal digit.\<close>

definition hex_string :: "string \<Rightarrow> bool" where
  "hex_string s = list_all (\<lambda>c. intAt c \<noteq> None) s"


subsection \<open>Example keys\<close>

text \<open>
  Two small private keys.  Both have \<open>q = 11\<close> and \<open>x = 3\<close>; the first has \<open>p = 23\<close>,
  \<open>g = 2\<close>, \<open>y = 8\<close>, the second \<open>p = 67\<close>, \<open>g = 25\<close>, \<open>y = 14\<close>.  The random source
  \<open>zero_tape\<close> yields the least value of every range it is asked for.
\<close>

definition key23 :: DSA where
  "key23 = setPrivate new_DSA (Some 23) (Some 11) (Some 2) (Some 8) (Some 3)"

definition key67 :: DSA where
  "key67 = setPrivate new_DSA (Some 67) (Some 11) (Some 25) (Some 14) (Some 3)"

definition zero_tape :: rng where
  "zero_tape = \<lparr>entropy = (\<lambda>i. 0), drawn = 0, requests = []\<rparr>"

definition st23 :: state where
  "st23 = \<lparr>self = key23, prng = zero_tape\<rparr>"

definition st67 :: state where
  "st67 = \<lparr>self = key67, prng = zero_tape\<rparr>"

section \<open>Properties\<close>

subsection \<open>Hexadecimal strings and bytes\<close>

lemma intAt_hexchar: "d < 16 \<Longrightarrow> intAt (hexchar d) = Some d"
proof -
  assume "d < 16"
  then have "d = 0 \<or> d = 1 \<or> d = 2 \<or> d = 3 \<or> d = 4 \<or> d = 5 \<or> d = 6 \<or> d = 7
    \<or> d = 8 \<or> d = 9 \<or> d = 10 \<or> d = 11 \<or> d = 12 \<or> d = 13 \<or> d = 14 \<or> d = 15"
    by arith
  then show ?thesis
    by (elim disjE) (simp_all add: hexchar_def intAt_def)
qed

lemma intAt_less: "intAt c = Some d \<Longrightarrow> d < 16"
  by (auto simp: intAt_def Let_def split: if_splits)

lemma bytes_of_hex_byte:
  "b < 256 \<Longrightarrow> bytes_of_hex (hex_of_byte b @ cs) =
     (case bytes_of_hex cs of None \<Rightarrow> None | Some bs \<Rightarrow> Some (b # bs))"
  by (simp add: hex_of_byte_def intAt_hexchar split: option.splits)

lemma bytes_of_hex_hex_of_bytes:
  "\<forall>b\<in>set bs. b < 256 \<Longrightarrow> bytes_of_hex (hex_of_bytes bs) = Some bs"
  by (induction bs) (simp_all add: hex_of_bytes_def bytes_of_hex_byte)

lemma bytes_of_hex_less:
  "bytes_of_hex h = Some bs \<Longrightarrow> \<forall>b\<in>set bs. b < 256"
proof (induction h arbitrary: bs rule: bytes_of_hex.induct)
  case (3 c1 c2 cs)
  then show ?case
    by (auto split: option.splits dest!: intAt_less)
qed simp_all

lemma fromRadix16_byte:
  "b < 256 \<Longrightarrow> fromRadix16 a (hex_of_byte b @ cs) = fromRadix16 (256 * a + b) cs"
proof -
  assume b: "b < 256"
  have eq: "16 * (16 * a + b div 16) + b mod 16 = 256 * a + b" by arith
  have "fromRadix16 a (hex_of_byte b @ cs) =
        fromRadix16 (16 * (16 * a + b div 16) + b mod 16) cs"
    using b by (simp add: fromRadix16_def hex_of_byte_def intAt_hexchar)
  then show ?thesis by (simp only: eq)
qed

lemma fromRadix16_hex_of_bytes:
  "\<forall>b\<in>set bs. b < 256 \<Longrightarrow>
   fromRadix16 a (hex_of_bytes bs) = foldl (\<lambda>a b. 256 * a + b) a bs"
proof (induction bs arbitrary: a)
  case Nil
  then show ?case by (simp add: hex_of_bytes_def fromRadix16_def)
next
  case (Cons b bs)
  have "hex_of_bytes (b # bs) = hex_of_byte b @ hex_of_bytes bs"
    by (simp add: hex_of_bytes_def)
  with Cons show ?case by (simp add: fromRadix16_byte)
qed

lemma new_BigInteger16_hex_of_bytes:
  "\<forall>b\<in>set bs. b < 256 \<Longrightarrow> new_BigInteger16 (hex_of_bytes bs) = int (be_val bs)"
  by (simp add: new_BigInteger16_def be_val_def fromRadix16_hex_of_bytes)

lemma be_val_snoc: "be_val (bs @ [b]) = 256 * be_val bs + b"
  by (simp add: be_val_def)

lemma be_val_be_bytes: "be_val (be_bytes n) = n"
proof (induction n rule: be_bytes.induct)
  case (1 n)
  show ?case
  proof (cases "n < 256")
    case True
    then show ?thesis by (simp add: be_bytes.simps [of n] be_val_def)
  next
    case False
    with 1 show ?thesis by (simp add: be_bytes.simps [of n] be_val_snoc)
  qed
qed

lemma be_bytes_less: "\<forall>b\<in>set (be_bytes n). b < 256"
proof (induction n rule: be_bytes.induct)
  case (1 n)
  then show ?case by (cases "n < 256") (auto simp: be_bytes.simps [of n])
qed

lemma be_bytes_not_Nil: "be_bytes n \<noteq> []"
  by (subst be_bytes.simps) simp

lemma length_be_bytes: "0 < k \<Longrightarrow> n < 256 ^ k \<Longrightarrow> length (be_bytes n) \<le> k"
proof (induction n arbitrary: k rule: be_bytes.induct)
  case (1 n)
  show ?case
  proof (cases "n < 256")
    case True
    with 1 show ?thesis by (simp add: be_bytes.simps [of n])
  next
    case False
    then have "1 < k" using 1(2,3) by (cases "k = 1") auto
    then obtain j where k: "k = Suc j" and j: "0 < j" by (cases k) auto
    have "n div 256 < 256 ^ j" using 1(3) k by (simp add: less_mult_imp_div_less mult.commute)
    from 1(1) [OF False j this] False show ?thesis by (simp add: be_bytes.simps [of n] k)
  qed
qed


lemma parse_len_der_len:
  assumes "der_len n = Some l"
  shows "parse_len (l @ rest) = Some (n, rest)"
proof (cases "n < 128")
  case True
  with assms show ?thesis by (auto simp: der_len_def parse_len_def)
next
  case False
  with assms have l: "l = (128 + length (be_bytes n)) # be_bytes n"
    by (auto simp: der_len_def split: if_splits)
  show ?thesis using assms False
    by (simp add: l parse_len_def be_val_be_bytes Let_def)
qed

lemma parse_len_Some:
  assumes "parse_len bs = Some (n, rest)"
  shows "\<exists>l. der_len n = Some l \<and> bs = l @ rest"
proof (cases bs)
  case Nil
  with assms show ?thesis by (simp add: parse_len_def)
next
  case (Cons b bs')
  show ?thesis
  proof (cases "b < 128")
    case True
    with assms Cons show ?thesis by (auto simp: parse_len_def der_len_def)
  next
    case False
    with assms Cons have "der_len n = Some (b # take (b - 128) bs')" and "rest = drop (b - 128) bs'"
      by (auto simp: parse_len_def Let_def split: if_splits)
    then show ?thesis using Cons by simp
  qed
qed

lemma parse_tlv_tlv:
  assumes "tlv t v = Some e"
  shows "parse_tlv (e @ rest) = Some (t, v, rest)"
proof -
  from assms obtain l where l: "der_len (length v) = Some l" and e: "e = t # l @ v"
    by (auto simp: tlv_def split: option.splits)
  show ?thesis
    by (simp add: e parse_tlv_def parse_len_der_len [OF l])
qed

lemma parse_tlv_Some:
  assumes "parse_tlv bs = Some (t, v, rest)"
  shows "\<exists>e. tlv t v = Some e \<and> bs = e @ rest"
proof -
  from assms obtain bs' n rest' where bs: "bs = t # bs'" and pl: "parse_len bs' = Some (n, rest')"
    and n: "n \<le> length rest'" and v: "v = take n rest'" and rest: "rest = drop n rest'"
    by (auto simp: parse_tlv_def split: list.splits option.splits if_splits)
  from parse_len_Some [OF pl] obtain l where l: "der_len n = Some l" and bs': "bs' = l @ rest'"
    by blast
  have "length v = n" using n v by simp
  then have "tlv t v = Some (t # l @ v)" using l by (simp add: tlv_def)
  moreover have "bs = (t # l @ v) @ rest" using bs bs' v rest by simp
  ultimately show ?thesis by blast
qed

lemma tlv_not_Nil: "tlv t v = Some e \<Longrightarrow> e \<noteq> []"
  by (auto simp: tlv_def split: option.splits)

lemma decode_integer_pair_iff:
  "decode_integer_pair bs = Some (v1, v2) \<longleftrightarrow>
   (\<exists>e1 e2. v1 \<noteq> [] \<and> v2 \<noteq> [] \<and> tlv 2 v1 = Some e1 \<and> tlv 2 v2 = Some e2 \<and>
      tlv 48 (e1 @ e2) = Some bs)"
proof
  assume "decode_integer_pair bs = Some (v1, v2)"
  then obtain content rest1 where
    a: "parse_tlv bs = Some (48, content, [])" and
    b: "parse_tlv content = Some (2, v1, rest1)" and
    c: "parse_tlv rest1 = Some (2, v2, [])" and
    d: "v1 \<noteq> []" "v2 \<noteq> []"
    by (auto simp: decode_integer_pair_def split: option.splits if_splits)
  from parse_tlv_Some [OF a] have 1: "tlv 48 content = Some bs" by auto
  from parse_tlv_Some [OF b] obtain e1 where 2: "tlv 2 v1 = Some e1" "content = e1 @ rest1"
    by auto
  from parse_tlv_Some [OF c] have 3: "tlv 2 v2 = Some rest1" by auto
  from 1 2 3 d show "\<exists>e1 e2. v1 \<noteq> [] \<and> v2 \<noteq> [] \<and> tlv 2 v1 = Some e1 \<and>
      tlv 2 v2 = Some e2 \<and> tlv 48 (e1 @ e2) = Some bs"
    by auto
next
  assume "\<exists>e1 e2. v1 \<noteq> [] \<and> v2 \<noteq> [] \<and> tlv 2 v1 = Some e1 \<and> tlv 2 v2 = Some e2 \<and>
      tlv 48 (e1 @ e2) = Some bs"
  then obtain e1 e2 where d: "v1 \<noteq> []" "v2 \<noteq> []" and 1: "tlv 2 v1 = Some e1"
    and 2: "tlv 2 v2 = Some e2" and 3: "tlv 48 (e1 @ e2) = Some bs"
    by blast
  have a: "parse_tlv bs = Some (48, e1 @ e2, [])" using parse_tlv_tlv [OF 3, of "[]"] by simp
  have b: "parse_tlv (e1 @ e2) = Some (2, v1, e2)" by (rule parse_tlv_tlv [OF 1])
  have c: "parse_tlv e2 = Some (2, v2, [])" using parse_tlv_tlv [OF 2, of "[]"] by simp
  show "decode_integer_pair bs = Some (v1, v2)"
    by (simp add: decode_integer_pair_def a b c d)
qed

subsection \<open>The decoder and the encoder\<close>

text \<open>
  \<open>parseASN1Signature\<close> raises nothing but \<open>MalformedSignature\<close>.  The lookup
  \<open>getVbyList\<close> finds the first two children of whatever the encoder wrote for a
  sequence, with whatever characters after it, so that what the encoder writes for a
  pair \<open>(r, s)\<close> is read back as \<open>(r, s)\<close>.
\<close>

lemma parseASN1Signature_Inl: "parseASN1Signature h = Inl e \<Longrightarrow> e = MalformedSignature"
  by (auto simp: parseASN1Signature_def split: sum.splits)

lemma hex_prefix_bytes_of_hex:
  "bytes_of_hex h = Some bs \<Longrightarrow> hex_prefix (h @ t) = bs @ hex_prefix t"
proof (induction h arbitrary: bs rule: bytes_of_hex.induct)
  case 1
  then show ?case by simp
next
  case (2 c)
  then show ?case by simp
next
  case (3 c1 c2 cs)
  then show ?case by (auto split: option.splits)
qed

lemma signature_container_iff:
  "signature_container h \<longleftrightarrow>
     (\<exists>bs v1 v2. bytes_of_hex h = Some bs \<and> decode_integer_pair bs = Some (v1, v2))"
proof
  assume "signature_container h"
  then show "\<exists>bs v1 v2. bytes_of_hex h = Some bs \<and> decode_integer_pair bs = Some (v1, v2)"
  proof cases
    case (1 v1 v2 e1 e2 bs)
    then have "decode_integer_pair bs = Some (v1, v2)"
      unfolding decode_integer_pair_iff by blast
    with 1(6) show ?thesis by blast
  qed
next
  assume "\<exists>bs v1 v2. bytes_of_hex h = Some bs \<and> decode_integer_pair bs = Some (v1, v2)"
  then obtain bs v1 v2 where h: "bytes_of_hex h = Some bs"
    and d: "decode_integer_pair bs = Some (v1, v2)" by blast
  from d obtain e1 e2 where "v1 \<noteq> []" "v2 \<noteq> []" "tlv 2 v1 = Some e1" "tlv 2 v2 = Some e2"
    "tlv 48 (e1 @ e2) = Some bs"
    unfolding decode_integer_pair_iff by blast
  then show "signature_container h" using h by (rule signature_container.intros)
qed

lemma read_header_tlv:
  assumes "tlv t v = Some e"
  shows "read_header (e @ rest) = Some (t, length e - length v, length v, v @ rest)"
proof -
  from assms obtain l where l: "der_len (length v) = Some l" and e: "e = t # l @ v"
    by (auto simp: tlv_def split: option.splits)
  show ?thesis
  proof (cases "length v < 128")
    case True
    with l have "l = [length v]" by (simp add: der_len_def)
    with True show ?thesis by (simp add: e read_header_def)
  next
    case False
    with l have l': "l = (128 + length (be_bytes (length v))) # be_bytes (length v)"
      by (auto simp: der_len_def split: if_splits)
    have "1 \<le> length (be_bytes (length v))"
      using be_bytes_not_Nil [of "length v"] by (cases "be_bytes (length v)") simp_all
    then show ?thesis
      by (simp add: e l' read_header_def be_val_be_bytes Let_def)
  qed
qed

lemma tlv_length: "tlv t v = Some e \<Longrightarrow> length v < length e"
  by (auto simp: tlv_def split: option.splits)

lemma der_len_less: "der_len n = Some l \<Longrightarrow> b \<in> set l \<Longrightarrow> b < 256"
  using be_bytes_less [of n] by (auto simp: der_len_def split: if_splits)

lemma tlv_less:
  "tlv t v = Some e \<Longrightarrow> t < 256 \<Longrightarrow> \<forall>b\<in>set v. b < 256 \<Longrightarrow> \<forall>b\<in>set e. b < 256"
proof -
  assume e: "tlv t v = Some e" and t: "t < 256" and v: "\<forall>b\<in>set v. b < 256"
  from e obtain l where l: "der_len (length v) = Some l" and e': "e = t # l @ v"
    by (auto simp: tlv_def split: option.splits)
  show ?thesis using der_len_less [OF l] t v by (auto simp: e')
qed

lemma int_content_less: "\<forall>b\<in>set (int_content n). b < 256"
  using be_bytes_less [of n] by (auto simp: int_content_def)

lemma int_content_not_Nil: "int_content n \<noteq> []"
  by (simp add: int_content_def be_bytes_not_Nil)

lemma be_val_int_content: "be_val (int_content n) = n"
proof -
  have "be_val (0 # be_bytes n) = be_val (be_bytes n)" by (simp add: be_val_def)
  then show ?thesis by (simp add: int_content_def be_val_be_bytes)
qed


lemma getIdxbyList_child0:
  assumes "tlv T c = Some bs"
  shows "getIdxbyList (bs @ R) [0] = Some (c @ R)"
  by (simp add: read_header_tlv [OF assms])

lemma getIdxbyList_no_child1:
  assumes outer: "tlv T c = Some bs" and c: "c = [] \<or> (\<exists>t v. tlv t v = Some c)"
  shows "getIdxbyList (bs @ R) [1] = None"
proof -
  have "nth_child (Suc 0) (c @ R) 0 (length c) = None"
  proof (cases "c = []")
    case True
    then show ?thesis by (simp split: option.splits)
  next
    case False
    with c obtain t v where tv: "tlv t v = Some c" by blast
    from tlv_length [OF tv] have "length c - length v + length v = length c" by simp
    then show ?thesis by (simp add: read_header_tlv [OF tv])
  qed
  then show ?thesis by (simp add: read_header_tlv [OF outer])
qed

lemma getIdxbyList_child1:
  assumes outer: "tlv T c = Some bs" and c: "c = e1 @ e2 @ others"
    and e1: "tlv t1 v1 = Some e1" and e2: "tlv t2 v2 = Some e2"
  shows "getIdxbyList (bs @ R) [1] = Some (e2 @ others @ R)"
proof -
  from tlv_length [OF e1] have 1: "length e1 - length v1 + length v1 = length e1" by simp
  from tlv_length [OF e2] have 2: "0 < length e2" by linarith
  have "read_header (c @ R) =
      Some (t1, length e1 - length v1, length v1, v1 @ e2 @ others @ R)"
    using read_header_tlv [OF e1, of "e2 @ others @ R"] by (simp add: c)
  then have "nth_child (Suc 0) (c @ R) 0 (length c) = Some (e2 @ others @ R)"
    using 1 2 by (simp add: c)
  then show ?thesis by (simp add: read_header_tlv [OF outer])
qed

lemma getVbyList_found:
  assumes idx: "getIdxbyList (hex_prefix h) nthList = Some (e @ rest)"
    and e: "tlv t v = Some e"
  shows "getVbyList h 0 nthList checkingTag =
     (if hex_of_byte t = checkingTag then Inr (hex_of_bytes v) else Inl DecodingError)"
proof -
  from e obtain l where e': "e = t # l @ v" by (auto simp: tlv_def split: option.splits)
  have "getV (e @ rest) = v" by (simp add: getV_def read_header_tlv [OF e])
  then show ?thesis by (simp add: getVbyList_def idx) (simp add: e')
qed

lemma getVbyList_not_found:
  "getIdxbyList (hex_prefix h) nthList = None \<Longrightarrow>
   getVbyList h 0 nthList checkingTag = Inl DecodingError"
  by (simp add: getVbyList_def)

lemma parseASN1Signature_no_first:
  "getVbyList h 0 [0] ''02'' = Inl e \<Longrightarrow> parseASN1Signature h = Inl MalformedSignature"
  by (simp add: parseASN1Signature_def)

lemma parseASN1Signature_no_second:
  "getVbyList h 0 [1] ''02'' = Inl e \<Longrightarrow> parseASN1Signature h = Inl MalformedSignature"
  by (simp add: parseASN1Signature_def split: sum.splits)

lemma parseASN1Signature_both:
  "getVbyList h 0 [0] ''02'' = Inr hR \<Longrightarrow> getVbyList h 0 [1] ''02'' = Inr hS \<Longrightarrow>
   parseASN1Signature h = Inr (new_BigInteger16 hR, new_BigInteger16 hS)"
  by (simp add: parseASN1Signature_def)

lemma hex_of_byte_tags: "hex_of_byte 2 = ''02''" "hex_of_byte 48 \<noteq> ''02''"
  by (simp_all add: hex_of_byte_def hexchar_def)

lemma concat_options_Cons:
  assumes "concat_options (x # xs) = Some c"
  obtains e c' where "x = Some e" "concat_options xs = Some c'" "c = e @ c'"
  using assms by (cases x; cases "concat_options xs") simp_all

lemma concat_options_less:
  assumes "\<forall>x\<in>set xs. \<forall>e. x = Some e \<longrightarrow> (\<forall>b\<in>set e. b < (256::nat))"
    and "concat_options xs = Some c"
  shows "\<forall>b\<in>set c. b < 256"
  using assms
proof (induction xs arbitrary: c)
  case Nil
  then show ?case by simp
next
  case (Cons x xs)
  from Cons.prems(2) obtain e c' where x: "x = Some e" and c': "concat_options xs = Some c'"
    and c: "c = e @ c'" by (rule concat_options_Cons)
  from Cons.prems(1) x have e: "\<forall>b\<in>set e. b < 256" by simp
  from Cons.prems(1) have "\<forall>x\<in>set xs. \<forall>e. x = Some e \<longrightarrow> (\<forall>b\<in>set e. b < 256)" by simp
  from Cons.IH [OF this c'] e show ?case by (simp add: c ball_Un)
qed

lemma der_bytes_less: "der_bytes j = Some bs \<Longrightarrow> \<forall>b\<in>set bs. b < 256"
proof (induction j arbitrary: bs rule: der_bytes.induct)
  case (1 n)
  then have "tlv 2 (int_content (nat n)) = Some bs" by (simp split: if_splits)
  then show ?case by (rule tlv_less) (simp_all add: int_content_less)
next
  case (2 items)
  from "2.prems" obtain c where c: "concat_options (map der_bytes items) = Some c"
    and bs: "tlv 48 c = Some bs"
    by (cases "concat_options (map der_bytes items)") simp_all
  have "\<forall>x\<in>set (map der_bytes items). \<forall>e. x = Some e \<longrightarrow> (\<forall>b\<in>set e. b < 256)"
    using "2.IH" by auto
  from concat_options_less [OF this c] have "\<forall>b\<in>set c. b < 256" .
  with bs show ?case by (intro tlv_less [OF bs]) simp_all
qed

lemma der_bytes_Int:
  "der_bytes (Int_bigint n) = Some e \<Longrightarrow> 0 \<le> n \<and> tlv 2 (int_content (nat n)) = Some e"
  by (simp split: if_splits)

lemma der_bytes_Seq:
  assumes "der_bytes (Seq items) = Some e"
  obtains c where "concat_options (map der_bytes items) = Some c" "tlv 48 c = Some e"
  using assms by (cases "concat_options (map der_bytes items)") simp_all

lemma der_bytes_tlv:
  assumes "der_bytes j = Some e"
  shows "\<exists>t v. tlv t v = Some e"
proof (cases j)
  case (Seq items)
  with assms have "der_bytes (Seq items) = Some e" by simp
  then obtain c where "tlv 48 c = Some e" by (rule der_bytes_Seq)
  then show ?thesis by blast
next
  case (Int_bigint n)
  with assms der_bytes_Int show ?thesis by blast
qed


lemma sequence_parsed:
  assumes "jsonToASN1HEX (Seq items) = Inr c"
  shows "parseASN1Signature (c @ t) =
     (case items of
        Int_bigint r # Int_bigint s # others \<Rightarrow> Inr (r, s)
      | _ \<Rightarrow> Inl MalformedSignature)"
proof -
  from assms obtain bs where bs: "der_bytes (Seq items) = Some bs" and c: "c = hex_of_bytes bs"
    unfolding jsonToASN1HEX_def by (cases "der_bytes (Seq items)") (simp_all del: der_bytes.simps)
  from bs obtain cc where cc: "concat_options (map der_bytes items) = Some cc"
    and outer: "tlv 48 cc = Some bs" by (rule der_bytes_Seq)
  have "bytes_of_hex c = Some bs"
    unfolding c using der_bytes_less [OF bs] by (rule bytes_of_hex_hex_of_bytes)
  then have hp: "hex_prefix (c @ t) = bs @ hex_prefix t" by (rule hex_prefix_bytes_of_hex)
  let ?R = "hex_prefix t"
  show ?thesis
  proof (cases items)
    case Nil
    with cc have "cc = []" by simp
    with outer have "tlv 48 [] = Some bs" by simp
    then have "getIdxbyList (bs @ ?R) [1] = None"
      by (rule getIdxbyList_no_child1) simp
    then have "getVbyList (c @ t) 0 [1] ''02'' = Inl DecodingError"
      by (intro getVbyList_not_found) (simp add: hp)
    then show ?thesis using Nil by (simp add: parseASN1Signature_no_second)
  next
    case (Cons x xs)
    with cc obtain e1 c1 where x: "der_bytes x = Some e1"
      and c1: "concat_options (map der_bytes xs) = Some c1" and cce: "cc = e1 @ c1"
      by (auto elim: concat_options_Cons)
    from der_bytes_tlv [OF x] obtain t1 v1 where tv1: "tlv t1 v1 = Some e1" by blast
    have idx0: "getIdxbyList (hex_prefix (c @ t)) [0] = Some (e1 @ c1 @ ?R)"
      using getIdxbyList_child0 [OF outer, of ?R] by (simp add: hp cce)
    show ?thesis
    proof (cases xs)
      case Nil
      with c1 have "cc = e1" by (simp add: cce)
      with outer have "tlv 48 e1 = Some bs" by simp
      moreover from tv1 have "e1 = [] \<or> (\<exists>t v. tlv t v = Some e1)" by blast
      ultimately have "getIdxbyList (bs @ ?R) [1] = None"
        by (rule getIdxbyList_no_child1)
      then have "getVbyList (c @ t) 0 [1] ''02'' = Inl DecodingError"
        by (intro getVbyList_not_found) (simp add: hp)
      then show ?thesis using Nil Cons
        by (simp add: parseASN1Signature_no_second split: asn1json.splits)
    next
      case (Cons y ys)
      with c1 obtain e2 c2 where y: "der_bytes y = Some e2" and c1e: "c1 = e2 @ c2"
        by (auto elim: concat_options_Cons)
      from der_bytes_tlv [OF y] obtain t2 v2 where tv2: "tlv t2 v2 = Some e2" by blast
      have idx1: "getIdxbyList (hex_prefix (c @ t)) [1] = Some (e2 @ c2 @ ?R)"
        using getIdxbyList_child1 [OF outer _ tv1 tv2, of c2 ?R] by (simp add: hp cce c1e)
      show ?thesis
      proof (cases x)
        case (Seq zs)
        with x have "der_bytes (Seq zs) = Some e1" by simp
        then obtain z where "tlv 48 z = Some e1" by (rule der_bytes_Seq)
        from getVbyList_found [OF idx0 this, of "''02''"]
        have "getVbyList (c @ t) 0 [0] ''02'' = Inl DecodingError"
          by (simp add: hex_of_byte_tags)
        then show ?thesis using Seq \<open>items = x # xs\<close>
          by (simp add: parseASN1Signature_no_first)
      next
        case (Int_bigint r)
        with x der_bytes_Int have r: "0 \<le> r" and er: "tlv 2 (int_content (nat r)) = Some e1"
          by blast+
        from getVbyList_found [OF idx0 er, of "''02''"]
        have g0: "getVbyList (c @ t) 0 [0] ''02'' = Inr (hex_of_bytes (int_content (nat r)))"
          by (simp add: hex_of_byte_tags)
        show ?thesis
        proof (cases y)
          case (Seq zs)
          with y have "der_bytes (Seq zs) = Some e2" by simp
          then obtain z where "tlv 48 z = Some e2" by (rule der_bytes_Seq)
          from getVbyList_found [OF idx1 this, of "''02''"]
          have "getVbyList (c @ t) 0 [1] ''02'' = Inl DecodingError"
            by (simp add: hex_of_byte_tags)
          then show ?thesis using Seq Int_bigint \<open>items = x # xs\<close> \<open>xs = y # ys\<close>
            by (simp add: parseASN1Signature_no_second)
        next
          case (Int_bigint s)
          with y der_bytes_Int have s: "0 \<le> s" and es: "tlv 2 (int_content (nat s)) = Some e2"
            by blast+
          from getVbyList_found [OF idx1 es, of "''02''"]
          have g1: "getVbyList (c @ t) 0 [1] ''02'' = Inr (hex_of_bytes (int_content (nat s)))"
            by (simp add: hex_of_byte_tags)
          have "parseASN1Signature (c @ t) = Inr (r, s)"
            using r s
            by (simp add: parseASN1Signature_both [OF g0 g1] new_BigInteger16_hex_of_bytes
                int_content_less be_val_int_content)
          then show ?thesis
            using Int_bigint \<open>x = Int_bigint r\<close> \<open>items = x # xs\<close> \<open>xs = y # ys\<close> by simp
        qed
      qed
    qed
  qed
qed

lemma encoded_parsed:
  assumes "jsonToASN1HEX (Seq [Int_bigint r, Int_bigint s]) = Inr h"
  shows "parseASN1Signature h = Inr (r, s)"
  using sequence_parsed [OF assms, of "[]"] by simp

subsection \<open>Deriving z from the digest\<close>

lemma substr_prefix: "substr S 0 (of_nat n / 4) = take (n div 4) S"
proof -
  have "\<lfloor>(of_nat n :: rat) / of_nat 4\<rfloor> = int (n div 4)" by (rule floor_divide_of_nat_eq)
  then have f: "\<lfloor>(of_nat n :: rat) / 4\<rfloor> = int (n div 4)" by simp
  show ?thesis by (simp add: substr_def ToIntegerOrInfinity_def f Let_def min_def max_def)
qed

lemma sign_z_take: "sign_z q sHashHex = new_BigInteger16 (take (bitLength q div 4) sHashHex)"
  by (simp only: sign_z_def Let_def substr_prefix)

lemma verify_z_take: "verify_z q sHashHex = new_BigInteger16 (take (bitLength q div 4) sHashHex)"
  by (simp only: verify_z_def Let_def substr_prefix)

lemma verify_z_sign_z: "verify_z q sHashHex = sign_z q sHashHex"
  by (simp only: sign_z_take verify_z_take)

lemma bitLength_11: "bitLength 11 = 4"
  by (simp add: bitLength_def nbits.simps)

lemma bitLength_23: "bitLength 23 = 5"
  by (simp add: bitLength_def nbits.simps)

lemma fromRadix16_less: "fromRadix16 a s < (a + 1) * 16 ^ length s"
proof (induction s arbitrary: a)
  case Nil
  then show ?case by (simp add: fromRadix16_def)
next
  case (Cons c s)
  show ?case
  proof (cases "intAt c")
    case None
    then have "fromRadix16 a (c # s) = fromRadix16 a s" by (simp add: fromRadix16_def)
    also have "\<dots> < (a + 1) * 16 ^ length s" by (rule Cons.IH)
    also have "\<dots> \<le> (a + 1) * 16 ^ length (c # s)" by simp
    finally show ?thesis .
  next
    case (Some d)
    then have d: "d < 16" by (rule intAt_less)
    from Some have "fromRadix16 a (c # s) = fromRadix16 (16 * a + d) s"
      by (simp add: fromRadix16_def)
    also have "\<dots> < (16 * a + d + 1) * 16 ^ length s" by (rule Cons.IH)
    also have "\<dots> \<le> (16 * (a + 1)) * 16 ^ length s"
      using d by (intro mult_right_mono) simp_all
    finally show ?thesis by (simp add: algebra_simps)
  qed
qed

lemma new_BigInteger16_bounds: "0 \<le> new_BigInteger16 s \<and> new_BigInteger16 s < 16 ^ length s"
proof -
  have "fromRadix16 0 s < 16 ^ length s" using fromRadix16_less [of 0 s] by simp
  then have "int (fromRadix16 0 s) < int (16 ^ length s)" by (simp only: of_nat_less_iff)
  then show ?thesis by (simp add: new_BigInteger16_def)
qed

lemma fromRadix16_append: "fromRadix16 a (s @ t) = fromRadix16 (fromRadix16 a s) t"
  by (simp add: fromRadix16_def)

lemma fromRadix16_shift:
  "hex_string t \<Longrightarrow> fromRadix16 a t = a * 16 ^ length t + fromRadix16 0 t"
proof (induction t arbitrary: a)
  case Nil
  then show ?case by (simp add: fromRadix16_def)
next
  case (Cons c t)
  then obtain d where d: "intAt c = Some d" and t: "hex_string t"
    by (auto simp: hex_string_def)
  have 1: "fromRadix16 a (c # t) = fromRadix16 (16 * a + d) t"
    and 2: "fromRadix16 0 (c # t) = fromRadix16 d t"
    using d by (simp_all add: fromRadix16_def)
  from Cons.IH [OF t, of "16 * a + d"] Cons.IH [OF t, of d] show ?case
    unfolding 1 2 by (simp add: algebra_simps)
qed

lemma fromRadix16_take:
  assumes h: "hex_string h" and n: "n \<le> length h"
  shows "fromRadix16 0 h div 16 ^ (length h - n) = fromRadix16 0 (take n h)"
proof -
  let ?A = "fromRadix16 0 (take n h)" and ?B = "fromRadix16 0 (drop n h)"
  let ?M = "(16::nat) ^ (length h - n)"
  have hd: "hex_string (drop n h)" using h by (simp add: hex_string_def list_all_iff) (meson in_set_dropD)
  have "fromRadix16 0 h = fromRadix16 0 (take n h @ drop n h)" by simp
  also have "\<dots> = fromRadix16 ?A (drop n h)" by (rule fromRadix16_append)
  also have "\<dots> = ?A * ?M + ?B" using fromRadix16_shift [OF hd, of ?A] by simp
  finally have e: "fromRadix16 0 h = ?A * ?M + ?B" .
  have "?B < ?M" using fromRadix16_less [of 0 "drop n h"] by simp
  then show ?thesis unfolding e by simp
qed

lemma sign_z_leftmost_bits:
  assumes N: "bitLength q mod 4 = 0" and h: "hex_string sHashHex"
  shows "sign_z q sHashHex = leftmost_bits_z q sHashHex"
proof -
  let ?L = "length sHashHex"
  from N obtain n where N4: "bitLength q = 4 * n" by (auto simp: mod_eq_0_iff_dvd dvd_def)
  then have n: "bitLength q div 4 = n" by simp
  have z: "sign_z q sHashHex = new_BigInteger16 (take n sHashHex)"
    by (simp only: sign_z_take n)
  show ?thesis
  proof (cases "n \<le> ?L")
    case True
    then have "4 * ?L - min (4 * n) (4 * ?L) = 4 * (?L - n)" by simp
    then have "leftmost_bits_z q sHashHex = new_BigInteger16 sHashHex div 2 ^ (4 * (?L - n))"
      by (simp add: leftmost_bits_z_def Let_def N4)
    also have "(2::int) ^ (4 * (?L - n)) = 16 ^ (?L - n)" by (simp add: power_mult)
    also have "new_BigInteger16 sHashHex div 16 ^ (?L - n) =
        int (fromRadix16 0 sHashHex div 16 ^ (?L - n))"
      by (simp add: new_BigInteger16_def zdiv_int)
    also have "\<dots> = new_BigInteger16 (take n sHashHex)"
      by (simp only: fromRadix16_take [OF h True] new_BigInteger16_def)
    finally show ?thesis by (simp only: z)
  next
    case False
    then have "4 * ?L - min (4 * n) (4 * ?L) = 0" by simp
    then have "leftmost_bits_z q sHashHex = new_BigInteger16 sHashHex"
      by (simp add: leftmost_bits_z_def Let_def N4)
    moreover have "take n sHashHex = sHashHex" using False by simp
    ultimately show ?thesis by (simp only: z)
  qed
qed

subsection \<open>Modular inverses\<close>

lemma modInverse_Some:
  assumes "modInverse a m = Some w"
  shows "0 \<le> w \<and> w < m \<and> (a * w) mod m = 1"
proof -
  from assms have "w \<in> set [0..m - 1]" and "(a * w) mod m = 1"
    unfolding modInverse_def find_Some_iff by (auto simp: nth_mem)
  then show ?thesis by simp
qed

lemma modInverse_exists:
  assumes "0 \<le> w" "w < m" "(a * w) mod m = 1"
  shows "\<exists>w'. modInverse a m = Some w'"
proof (cases "modInverse a m")
  case None
  then have "\<not> (\<exists>x. x \<in> set [0..m - 1] \<and> (a * x) mod m = 1)"
    unfolding modInverse_def find_None_iff by simp
  with assms show ?thesis by simp
next
  case (Some w')
  then show ?thesis by simp
qed

lemma is_prime_coprime:
  assumes q: "is_prime q" and s: "0 < s" "s < q"
  shows "gcd s q = 1"
proof -
  let ?d = "gcd s q"
  have "?d \<noteq> 0" using s by simp
  moreover have "0 \<le> ?d" by simp
  ultimately have d0: "0 < ?d" by linarith
  have "?d dvd s" by simp
  then have "?d \<le> s" using s by (intro zdvd_imp_le) simp_all
  then have dq: "?d \<le> q - 1" using s by linarith
  have "?d dvd q" by simp
  with q dq have "\<not> 2 \<le> ?d" by (auto simp: is_prime_def)
  with d0 show ?thesis by linarith
qed

lemma is_prime_inverse:
  assumes q: "is_prime q" and s: "0 < s" "s < q"
  shows "\<exists>w. modInverse s q = Some w"
proof -
  from q have q1: "1 < q" by (simp add: is_prime_def)
  from bezout_int [of s q] obtain u v where "u * s + v * q = gcd s q" by blast
  with is_prime_coprime [OF q s] have "s * u = 1 + (- v) * q" by (simp add: algebra_simps)
  then have "(s * u) mod q = (1 + (- v) * q) mod q" by simp
  also have "\<dots> = 1" using q1 by (simp only: mod_mult_self1) simp
  finally have "(s * u) mod q = 1" .
  then have "(s * (u mod q)) mod q = 1" by (simp add: mod_mult_right_eq)
  moreover have "0 \<le> u mod q" "u mod q < q" using q1 by simp_all
  ultimately show ?thesis by (intro modInverse_exists [of "u mod q"]) simp_all
qed

subsection \<open>The verifier\<close>

lemma compareTo_pos: "0 < compareTo a b \<longleftrightarrow> b < a"
  by (simp add: compareTo_def)

lemma compareTo_zero: "compareTo a b = 0 \<longleftrightarrow> a = b"
  by (simp add: compareTo_def)

lemma verify_rs_out_of_range:
  assumes "dsa_q this = Some q" and "r < 0 \<or> q < r \<or> s < 0 \<or> q < s"
  shows "verify_rs this sHashHex r s = Inl InvalidSignature"
  using assms by (auto simp: verify_rs_def compareTo_pos Let_def)

lemma verify_rs_in_range:
  assumes "dsa_q this = Some q" "dsa_p this = Some p" "dsa_g this = Some g" "dsa_y this = Some y"
    and "0 \<le> r" "r \<le> q" "0 \<le> s" "s \<le> q" and "modInverse s q = Some w"
  shows "verify_rs this sHashHex r s =
     Inr (((modPow g ((verify_z q sHashHex * w) mod q) p
            * modPow y ((r * w) mod q) p) mod p) mod q = r)"
proof -
  from assms(5-8) have "\<not> r < 0" "\<not> q < r" "\<not> s < 0" "\<not> q < s" by simp_all
  then show ?thesis
    by (simp add: verify_rs_def compareTo_pos compareTo_zero Let_def assms(1-4,9))
qed

lemma verify_rs_r_eq_q:
  assumes "dsa_q this = Some q" "dsa_p this = Some p" "dsa_g this = Some g" "dsa_y this = Some y"
    and q: "is_prime q" and s: "0 < s" "s < q"
  shows "verify_rs this sHashHex q s = Inr False"
proof -
  from is_prime_inverse [OF q s] obtain w where w: "modInverse s q = Some w" by blast
  from q have q0: "0 < q" by (simp add: is_prime_def)
  let ?v = "((modPow g ((verify_z q sHashHex * w) mod q) p
            * modPow y ((q * w) mod q) p) mod p) mod q"
  have "?v < q" using q0 by (rule pos_mod_bound)
  then have "?v \<noteq> q" by simp
  moreover have "verify_rs this sHashHex q s = Inr (?v = q)"
    using assms(1-4) q0 s w by (intro verify_rs_in_range) simp_all
  ultimately show ?thesis by simp
qed

lemma public_key_fields:
  assumes "public_key this"
  obtains p q g y where "dsa_p this = Some p" "dsa_q this = Some q" "dsa_g this = Some g"
    "dsa_y this = Some y" "domain_parameters p q g"
  using assms unfolding public_key_def by (auto split: option.splits)

lemma private_key_fields:
  assumes "private_key this"
  obtains p q g y x where "dsa_p this = Some p" "dsa_q this = Some q" "dsa_g this = Some g"
    "dsa_y this = Some y" "dsa_x this = Some x" "domain_parameters p q g" "0 < x" "x < q"
    "y = g ^ nat x mod p"
  using assms unfolding private_key_def by (auto split: option.splits)

lemma verify_rs_boundary_not_rejected:
  assumes "dsa_q this = Some q" and "0 \<le> r" "r \<le> q" "0 \<le> s" "s \<le> q"
  shows "verify_rs this sHashHex r s \<noteq> Inl InvalidSignature"
proof -
  from assms(2-5) have "\<not> r < 0" "\<not> q < r" "\<not> s < 0" "\<not> q < s" by simp_all
  then show ?thesis
    by (simp add: verify_rs_def compareTo_pos Let_def assms(1) split: option.splits)
qed

subsection \<open>The random source and the signer\<close>

lemma getRandomBigIntegerMinToMax_range:
  assumes "getRandomBigIntegerMinToMax biMin biMax rs = (Inr k, rs')"
  shows "biMin \<le> k \<and> k \<le> biMax"
proof -
  from assms have le: "biMin \<le> biMax"
    and k: "k = biMin + int (entropy rs (drawn rs)) mod (biMax - biMin + 1)"
    by (auto simp: getRandomBigIntegerMinToMax_def Let_def split: if_splits)
  have "0 \<le> int (entropy rs (drawn rs)) mod (biMax - biMin + 1)"
    using le by (intro pos_mod_sign) simp
  moreover have "int (entropy rs (drawn rs)) mod (biMax - biMin + 1) < biMax - biMin + 1"
    using le by (intro pos_mod_bound) simp
  ultimately show ?thesis using k by simp
qed

lemma getRandomBigIntegerMinToMax_requests:
  "requests (snd (getRandomBigIntegerMinToMax biMin biMax rs)) = requests rs @ [(biMin, biMax)]"
  by (simp add: getRandomBigIntegerMinToMax_def Let_def)

lemma getRandomBigIntegerMinToMax_drawn:
  "drawn (snd (getRandomBigIntegerMinToMax biMin biMax rs)) =
     drawn rs + (if biMax < biMin then 0 else 1)"
  by (simp add: getRandomBigIntegerMinToMax_def Let_def)

lemma signWithMessageHash_prng:
  assumes "dsa_q (self st) = Some q"
  shows "prng (snd (signWithMessageHash st sHashHex)) =
           snd (getRandomBigIntegerMinToMax 2 (q - 1) (prng st))"
  using assms
  by (simp add: signWithMessageHash_def split: prod.splits sum.splits)

subsection \<open>A signature with a non-zero s verifies\<close>

lemma power_mod_order:
  fixes g p :: int
  assumes "g ^ n mod p = 1"
  shows "g ^ a mod p = g ^ (a mod n) mod p"
proof -
  have "g ^ a = g ^ (n * (a div n) + a mod n)" by simp
  also have "\<dots> = (g ^ n) ^ (a div n) * g ^ (a mod n)" by (simp only: power_add power_mult)
  finally have "g ^ a mod p = ((g ^ n) ^ (a div n) * g ^ (a mod n)) mod p" by simp
  also have "\<dots> = (((g ^ n mod p) ^ (a div n)) mod p * g ^ (a mod n)) mod p"
    by (simp only: power_mod mod_mult_left_eq)
  also have "\<dots> = (1 * g ^ (a mod n)) mod p"
    by (simp only: assms power_one mod_mult_left_eq)
  also have "\<dots> = g ^ (a mod n) mod p" by simp
  finally show ?thesis .
qed

lemma power_mod_order_cong:
  fixes g p q :: int
  assumes g: "g ^ nat q mod p = 1" and q: "0 < q" and a: "0 \<le> a" and b: "0 \<le> b"
    and ab: "a mod q = b mod q"
  shows "g ^ nat a mod p = g ^ nat b mod p"
proof -
  have "nat a mod nat q = nat (a mod q)" using a q by (simp add: nat_mod_distrib)
  moreover have "nat b mod nat q = nat (b mod q)" using b q by (simp add: nat_mod_distrib)
  ultimately have "nat a mod nat q = nat b mod nat q" using ab by simp
  then show ?thesis
    using power_mod_order [OF g, of "nat a"] power_mod_order [OF g, of "nat b"] by simp
qed

lemma exponent_cong:
  fixes q :: int
  assumes k: "(k * kinv) mod q = 1" and w: "(s * w) mod q = 1"
    and s: "s = (kinv * A) mod q" and q: "1 < q"
  shows "(w * A) mod q = k mod q"
proof -
  have "q dvd k * kinv - 1" using k q by (metis mod_eq_dvd_iff mod_pos_pos_trivial zero_le_one)
  then obtain c1 where c1: "k * kinv - 1 = q * c1" by (auto simp: dvd_def)
  have "q dvd s * w - 1" using w q by (metis mod_eq_dvd_iff mod_pos_pos_trivial zero_le_one)
  then obtain c2 where c2: "s * w - 1 = q * c2" by (auto simp: dvd_def)
  have "q dvd kinv * A - s" unfolding s by (simp add: mod_eq_dvd_iff [symmetric])
  then obtain c3 where c3: "kinv * A - s = q * c3" by (auto simp: dvd_def)
  have "w * A - k = q * (k * w * c3 + k * c2 - w * A * c1)"
    using c1 c2 c3 by algebra
  then have "w * A = k + q * (k * w * c3 + k * c2 - w * A * c1)" by simp
  then have "(w * A) mod q = (k + q * (k * w * c3 + k * c2 - w * A * c1)) mod q" by simp
  also have "\<dots> = k mod q" by (rule mod_mult_self2)
  finally show ?thesis .
qed

lemma sign_rs_private:
  assumes "dsa_p this = Some p" "dsa_g this = Some g" "dsa_x this = Some x"
    and "modInverse k q = Some kinv"
  shows "sign_rs this q k sHashHex =
     Inr (modPow g k p mod q, (kinv * (sign_z q sHashHex + x * (modPow g k p mod q))) mod q)"
  using assms by (simp add: sign_rs_def Let_def)

lemma sign_rs_verify_rs:
  assumes pk: "private_key this" and q: "dsa_q this = Some q" and k: "2 \<le> k" "k \<le> q - 1"
    and sg: "sign_rs this q k sHashHex = Inr (r, s)" and s0: "s \<noteq> 0"
  shows "verify_rs this sHashHex r s = Inr True"
proof -
  from pk obtain p q' g y x where f: "dsa_p this = Some p" "dsa_q this = Some q'"
    "dsa_g this = Some g" "dsa_y this = Some y" "dsa_x this = Some x"
    and d: "domain_parameters p q' g" and x: "0 < x" "x < q'" and y: "y = g ^ nat x mod p"
    by (rule private_key_fields)
  from f(2) q have qq: "q' = q" by simp
  from d have pq: "is_prime q" and ord: "g ^ nat q mod p = 1"
    by (simp_all add: domain_parameters_def qq)
  from pq have q1: "1 < q" by (simp add: is_prime_def)
  from k have k0: "0 < k" "k < q" by simp_all
  from is_prime_inverse [OF pq k0] obtain kinv where ki: "modInverse k q = Some kinv" by blast
  from modInverse_Some [OF ki] have kk: "(k * kinv) mod q = 1" by simp
  let ?z = "sign_z q sHashHex"
  from sign_rs_private [OF f(1,3,5) ki, of sHashHex] sg
  have r: "r = modPow g k p mod q" and s: "s = (kinv * (?z + x * r)) mod q" by simp_all
  have r0: "0 \<le> r" "r < q" using q1 by (simp_all add: r)
  have "0 \<le> s" "s < q" using q1 by (simp_all add: s)
  with s0 have s1: "0 < s" "s < q" by simp_all
  from is_prime_inverse [OF pq s1] obtain w where w: "modInverse s q = Some w" by blast
  from modInverse_Some [OF w] have ww: "(s * w) mod q = 1" by simp
  let ?u1 = "(verify_z q sHashHex * w) mod q"
  let ?u2 = "(r * w) mod q"
  have u: "0 \<le> ?u1" "0 \<le> ?u2" using q1 by simp_all
  have e: "(w * (?z + x * r)) mod q = k mod q"
    using kk ww s q1 by (rule exponent_cong)
  have "(x * ?u2) mod q = (x * (r * w)) mod q" by (rule mod_mult_right_eq)
  then have "(?u1 + x * ?u2) mod q = (verify_z q sHashHex * w + x * (r * w)) mod q"
    by (intro mod_add_cong) simp_all
  also have "verify_z q sHashHex * w + x * (r * w) = w * (?z + x * r)"
    by (simp add: verify_z_sign_z algebra_simps)
  finally have "(?u1 + x * ?u2) mod q = (w * (?z + x * r)) mod q" .
  with e have c: "(?u1 + x * ?u2) mod q = k mod q" by simp
  have n: "nat ?u1 + nat x * nat ?u2 = nat (?u1 + x * ?u2)"
    using u x by (simp add: nat_add_distrib nat_mult_distrib)
  have "(modPow g ?u1 p * modPow y ?u2 p) mod p
      = (g ^ nat ?u1 mod p * ((g ^ nat x mod p) ^ nat ?u2 mod p)) mod p"
    by (simp only: modPow_def y)
  also have "\<dots> = (g ^ nat ?u1 * (g ^ nat x) ^ nat ?u2) mod p"
    by (simp only: power_mod mod_mult_eq)
  also have "\<dots> = g ^ (nat ?u1 + nat x * nat ?u2) mod p"
    by (simp only: power_add power_mult)
  also have "\<dots> = g ^ nat (?u1 + x * ?u2) mod p" by (simp only: n)
  also have "\<dots> = g ^ nat k mod p"
    using ord _ _ _ c
  proof (rule power_mod_order_cong)
    show "0 < q" using q1 by simp
    show "0 \<le> ?u1 + x * ?u2" using u x by simp
    show "0 \<le> k" using k by simp
  qed
  finally have v: "((modPow g ?u1 p * modPow y ?u2 p) mod p) mod q = r"
    by (simp add: r modPow_def)
  have "verify_rs this sHashHex r s = Inr (((modPow g ?u1 p * modPow y ?u2 p) mod p) mod q = r)"
    using q f(1,3,4) r0 s1 w by (intro verify_rs_in_range) simp_all
  with v show ?thesis by simp
qed

lemma sign_verify_nonzero_s:
  assumes pk: "private_key (self st)"
    and sg: "signWithMessageHash st sHashHex = (Inr hSigVal, st')"
  shows "\<exists>r s. parseASN1Signature hSigVal = Inr (r, s) \<and>
           (s \<noteq> 0 \<longrightarrow> verifyWithMessageHash st' sHashHex hSigVal = (Inr True, st'))"
proof -
  from pk obtain p q g y x where q: "dsa_q (self st) = Some q"
    by (rule private_key_fields)
  from sg q obtain k rs where d: "getRandomBigIntegerMinToMax 2 (q - 1) (prng st) = (Inr k, rs)"
    by (cases "getRandomBigIntegerMinToMax 2 (q - 1) (prng st)")
       (auto simp: signWithMessageHash_def split: sum.splits)
  from sg q d obtain r s where rs: "sign_rs (self st) q k sHashHex = Inr (r, s)"
    and enc: "jsonToASN1HEX (Seq [Int_bigint r, Int_bigint s]) = Inr hSigVal"
    and st': "st' = st\<lparr>prng := rs\<rparr>"
    by (auto simp: signWithMessageHash_def split: sum.splits)
  from getRandomBigIntegerMinToMax_range [OF d] have k: "2 \<le> k" "k \<le> q - 1" by simp_all
  have p: "parseASN1Signature hSigVal = Inr (r, s)" using enc by (rule encoded_parsed)
  have "verify_rs (self st) sHashHex r s = Inr True" if "s \<noteq> 0"
    using pk q k rs that by (rule sign_rs_verify_rs)
  then have "s \<noteq> 0 \<longrightarrow> verifyWithMessageHash st' sHashHex hSigVal = (Inr True, st')"
    by (simp add: verifyWithMessageHash_def p st')
  with p show ?thesis by blast
qed

subsection \<open>Integers the encoder can represent\<close>

lemma der_len_defined:
  assumes "n < 256 ^ 126"
  shows "\<exists>l. der_len n = Some l \<and> length l \<le> 127"
proof (cases "n < 128")
  case True
  then show ?thesis by (simp add: der_len_def)
next
  case False
  from assms have "length (be_bytes n) \<le> 126" by (intro length_be_bytes) simp_all
  with False show ?thesis by (simp add: der_len_def)
qed

lemma tlv_defined:
  assumes "length v < 256 ^ 126"
  shows "\<exists>e. tlv t v = Some e \<and> length e \<le> length v + 128"
proof -
  from der_len_defined [OF assms] obtain l where "der_len (length v) = Some l" "length l \<le> 127"
    by blast
  then show ?thesis by (simp add: tlv_def)
qed

lemma length_int_content:
  assumes "n < 256 ^ L"
  shows "length (int_content n) \<le> L + 2"
proof -
  have "n < 256 ^ Suc L" using assms by (simp add: less_le_trans [OF assms])
  then have "length (be_bytes n) \<le> Suc L" by (intro length_be_bytes) simp_all
  then show ?thesis by (simp add: int_content_def)
qed

lemma small_length:
  assumes "L \<le> 2 ^ 64" and "n \<le> 2 * L + 260"
  shows "(n::nat) < 256 ^ 126"
proof -
  have "n \<le> 2 * 2 ^ 64 + 260" using assms by simp
  also have "\<dots> < (256::nat) ^ 126" by simp
  finally show ?thesis .
qed

lemma encodable:
  assumes r: "0 \<le> r" "r < 256 ^ L" and s: "0 \<le> s" "s < 256 ^ L" and L: "L \<le> 2 ^ 64"
  shows "\<exists>h. jsonToASN1HEX (Seq [Int_bigint r, Int_bigint s]) = Inr h"
proof -
  have "nat r < 256 ^ L" using r by (simp add: nat_less_iff)
  then have lr: "length (int_content (nat r)) \<le> L + 2" by (rule length_int_content)
  have "nat s < 256 ^ L" using s by (simp add: nat_less_iff)
  then have ls: "length (int_content (nat s)) \<le> L + 2" by (rule length_int_content)
  have "length (int_content (nat r)) < 256 ^ 126" using lr by (intro small_length [OF L]) linarith
  from tlv_defined [OF this] obtain e1 where e1: "tlv 2 (int_content (nat r)) = Some e1"
    "length e1 \<le> length (int_content (nat r)) + 128" by blast
  have "length (int_content (nat s)) < 256 ^ 126" using ls by (intro small_length [OF L]) linarith
  from tlv_defined [OF this] obtain e2 where e2: "tlv 2 (int_content (nat s)) = Some e2"
    "length e2 \<le> length (int_content (nat s)) + 128" by blast
  have "length (e1 @ e2) = length e1 + length e2" by simp
  with lr ls e1(2) e2(2) have "length (e1 @ e2) \<le> 2 * L + 260" by linarith
  with L have "length (e1 @ e2) < 256 ^ 126" by (rule small_length)
  from tlv_defined [OF this] obtain bs where "tlv 48 (e1 @ e2) = Some bs" by blast
  with r s e1 e2 show ?thesis by (simp add: jsonToASN1HEX_def)
qed

lemma sign_returns:
  assumes pk: "private_key (self st)" and q: "dsa_q (self st) = Some q" and q3: "3 \<le> q"
    and L: "q \<le> 256 ^ L" "L \<le> 2 ^ 64"
  shows "\<exists>hSigVal rs. signWithMessageHash st sHashHex = (Inr hSigVal, st\<lparr>prng := rs\<rparr>)"
proof -
  from pk obtain p q' g y x where f: "dsa_p (self st) = Some p" "dsa_q (self st) = Some q'"
    "dsa_g (self st) = Some g" "dsa_y (self st) = Some y" "dsa_x (self st) = Some x"
    and d: "domain_parameters p q' g"
    by (rule private_key_fields)
  from f(2) q have qq: "q' = q" by simp
  from d have pq: "is_prime q" by (simp add: domain_parameters_def qq)
  obtain k rs where dr: "getRandomBigIntegerMinToMax 2 (q - 1) (prng st) = (Inr k, rs)"
    using q3 by (simp add: getRandomBigIntegerMinToMax_def Let_def)
  from getRandomBigIntegerMinToMax_range [OF dr] have k: "0 < k" "k < q" by simp_all
  from is_prime_inverse [OF pq k] obtain kinv where ki: "modInverse k q = Some kinv" by blast
  let ?r = "modPow g k p mod q"
  let ?s = "(kinv * (sign_z q sHashHex + x * ?r)) mod q"
  have rs: "sign_rs (self st) q k sHashHex = Inr (?r, ?s)"
    using f(1,3,5) ki by (rule sign_rs_private)
  have q0: "0 < q" using q3 by simp
  have b: "0 \<le> ?r" "?r < q" "0 \<le> ?s" "?s < q" using q0 by simp_all
  have "?r < 256 ^ L" using b(2) L(1) by (rule less_le_trans)
  moreover have "?s < 256 ^ L" using b(4) L(1) by (rule less_le_trans)
  ultimately obtain h
    where "jsonToASN1HEX (Seq [Int_bigint ?r, Int_bigint ?s]) = Inr h"
    using encodable [OF b(1) _ b(3) _ L(2)] by blast
  with q dr rs have "signWithMessageHash st sHashHex = (Inr h, st\<lparr>prng := rs\<rparr>)"
    by (simp add: signWithMessageHash_def)
  then show ?thesis by blast
qed

subsection \<open>The example keys, evaluated\<close>

lemma prime_11: "is_prime 11" by code_simp
lemma prime_23: "is_prime 23" by code_simp
lemma prime_67: "is_prime 67" by code_simp
lemma dp23: "domain_parameters 23 11 2" by (simp add: domain_parameters_def prime_11 prime_23)
lemma dp67: "domain_parameters 67 11 25" by (simp add: domain_parameters_def prime_11 prime_67)
lemma private_key23: "private_key key23"
  by (simp add: private_key_def key23_def setPrivate_def new_DSA_def dp23)
lemma private_key67: "private_key key67"
  by (simp add: private_key_def key67_def setPrivate_def new_DSA_def dp67)
lemma public_key23: "public_key key23"
proof -
  have "(3::int) \<in> {1..11 - 1}" by simp
  moreover have "(8::int) = 2 ^ nat 3 mod 23" by simp
  ultimately have "\<exists>x\<in>{1..11 - 1}. (8::int) = 2 ^ nat x mod 23" by (rule bexI [rotated])
  then show ?thesis
    by (simp add: public_key_def key23_def setPrivate_def new_DSA_def dp23)
qed

lemma der_bytes_small:
  assumes "0 \<le> r" "r < 128" "0 \<le> s" "s < 128"
  shows "der_bytes (Seq [Int_bigint r, Int_bigint s]) = Some [48, 6, 2, 1, nat r, 2, 1, nat s]"
proof -
  have "nat r < 128" "nat s < 128" using assms by simp_all
  then have c: "int_content (nat r) = [nat r]" "int_content (nat s) = [nat s]"
    by (simp_all add: int_content_def be_bytes.simps)
  have t: "tlv 2 [nat r] = Some [2, 1, nat r]" "tlv 2 [nat s] = Some [2, 1, nat s]"
    by (simp_all add: tlv_def der_len_def)
  have u: "tlv 48 ([2, 1, nat r] @ [2, 1, nat s]) = Some [48, 6, 2, 1, nat r, 2, 1, nat s]"
    by (simp add: tlv_def der_len_def)
  show ?thesis using assms(1,3) by (simp add: c t u del: append.simps) (simp add: u [simplified])
qed

lemma enc_4_0: "jsonToASN1HEX (Seq [Int_bigint 4, Int_bigint 0]) = Inr ''3006020104020100''"
proof -
  have "der_bytes (Seq [Int_bigint 4, Int_bigint 0]) = Some [48, 6, 2, 1, nat 4, 2, 1, nat 0]"
    by (rule der_bytes_small) simp_all
  then show ?thesis
    unfolding jsonToASN1HEX_def by (simp add: hex_of_bytes_def hex_of_byte_def hexchar_def)
qed

lemma enc_0_6: "jsonToASN1HEX (Seq [Int_bigint 0, Int_bigint 6]) = Inr ''3006020100020106''"
proof -
  have "der_bytes (Seq [Int_bigint 0, Int_bigint 6]) = Some [48, 6, 2, 1, nat 0, 2, 1, nat 6]"
    by (rule der_bytes_small) simp_all
  then show ?thesis
    unfolding jsonToASN1HEX_def by (simp add: hex_of_bytes_def hex_of_byte_def hexchar_def)
qed

lemma enc_12_1: "jsonToASN1HEX (Seq [Int_bigint 12, Int_bigint 1]) = Inr ''300602010c020101''"
proof -
  have "der_bytes (Seq [Int_bigint 12, Int_bigint 1]) = Some [48, 6, 2, 1, nat 12, 2, 1, nat 1]"
    by (rule der_bytes_small) simp_all
  then show ?thesis
    unfolding jsonToASN1HEX_def by (simp add: hex_of_bytes_def hex_of_byte_def hexchar_def)
qed

lemma enc_11_1: "jsonToASN1HEX (Seq [Int_bigint 11, Int_bigint 1]) = Inr ''300602010b020101''"
proof -
  have "der_bytes (Seq [Int_bigint 11, Int_bigint 1]) = Some [48, 6, 2, 1, nat 11, 2, 1, nat 1]"
    by (rule der_bytes_small) simp_all
  then show ?thesis
    unfolding jsonToASN1HEX_def by (simp add: hex_of_bytes_def hex_of_byte_def hexchar_def)
qed

lemma enc_4_5: "jsonToASN1HEX (Seq [Int_bigint 4, Int_bigint 5]) = Inr ''3006020104020105''"
proof -
  have "der_bytes (Seq [Int_bigint 4, Int_bigint 5]) = Some [48, 6, 2, 1, nat 4, 2, 1, nat 5]"
    by (rule der_bytes_small) simp_all
  then show ?thesis
    unfolding jsonToASN1HEX_def by (simp add: hex_of_bytes_def hex_of_byte_def hexchar_def)
qed

lemmas parse_4_0 = encoded_parsed [OF enc_4_0]
lemmas parse_0_6 = encoded_parsed [OF enc_0_6]
lemmas parse_12_1 = encoded_parsed [OF enc_12_1]
lemmas parse_11_1 = encoded_parsed [OF enc_11_1]

lemma enc_4_5_6:
  "jsonToASN1HEX (Seq [Int_bigint 4, Int_bigint 5, Int_bigint 6]) =
     Inr ''3009020104020105020106''"
proof -
  have c: "int_content 4 = [4]" "int_content 5 = [5]" "int_content 6 = [6]"
    by (simp_all add: int_content_def be_bytes.simps)
  have t: "tlv 2 [4] = Some [2, Suc 0, 4]" "tlv 2 [5] = Some [2, Suc 0, 5]"
    "tlv 2 [6] = Some [2, Suc 0, 6]"
    by (simp_all add: tlv_def der_len_def)
  have u: "tlv 48 [2, Suc 0, 4, 2, Suc 0, 5, 2, Suc 0, 6] =
      Some [48, 9, 2, Suc 0, 4, 2, Suc 0, 5, 2, Suc 0, 6]"
    by (simp add: tlv_def der_len_def)
  have "der_bytes (Seq [Int_bigint 4, Int_bigint 5, Int_bigint 6]) =
      Some [48, 9, 2, 1, 4, 2, 1, 5, 2, 1, 6]"
    by (simp add: c t u)
  then show ?thesis
    unfolding jsonToASN1HEX_def by (simp add: hex_of_bytes_def hex_of_byte_def hexchar_def)
qed

lemma enc_4: "jsonToASN1HEX (Seq [Int_bigint 4]) = Inr ''3003020104''"
proof -
  have c: "int_content 4 = [4]" by (simp add: int_content_def be_bytes.simps)
  have t: "tlv 2 [4] = Some [2, Suc 0, 4]" by (simp add: tlv_def der_len_def)
  have u: "tlv 48 [2, Suc 0, 4] = Some [48, 3, 2, Suc 0, 4]" by (simp add: tlv_def der_len_def)
  have "der_bytes (Seq [Int_bigint 4]) = Some [48, 3, 2, 1, 4]" by (simp add: c t u)
  then show ?thesis
    unfolding jsonToASN1HEX_def by (simp add: hex_of_bytes_def hex_of_byte_def hexchar_def)
qed

text \<open>
  A pair followed by one more byte is no well-formed container: the strict reading
  of its bytes finds the byte after the sequence.
\<close>

lemma trailing_byte_no_container: "\<not> signature_container ''300602010402010500''"
proof -
  have b: "bytes_of_hex ''300602010402010500'' = Some [48, 6, 2, 1, 4, 2, 1, 5, 0]"
    by (simp add: intAt_def)
  have p: "parse_tlv [48, 6, 2, 1, 4, 2, 1, 5, 0] = Some (48, [2, 1, 4, 2, 1, 5], [0])"
    by (simp add: parse_tlv_def parse_len_def)
  have d: "decode_integer_pair [48, 6, 2, 1, 4, 2, 1, 5, 0] = None"
    unfolding decode_integer_pair_def p by simp
  show ?thesis unfolding signature_container_iff b using d by simp
qed

lemma key23_fields:
  "dsa_p key23 = Some 23" "dsa_q key23 = Some 11" "dsa_g key23 = Some 2"
  "dsa_y key23 = Some 8" "dsa_x key23 = Some 3"
  by (simp_all add: key23_def setPrivate_def new_DSA_def)

lemma key67_fields:
  "dsa_p key67 = Some 67" "dsa_q key67 = Some 11" "dsa_g key67 = Some 25"
  "dsa_y key67 = Some 14" "dsa_x key67 = Some 3"
  by (simp_all add: key67_def setPrivate_def new_DSA_def)

lemma draw_zero_tape:
  "getRandomBigIntegerMinToMax 2 10 zero_tape =
     (Inr 2, zero_tape\<lparr>drawn := 1, requests := [(2, 10)]\<rparr>)"
  by (simp add: getRandomBigIntegerMinToMax_def zero_tape_def)

lemma z_11_a: "sign_z 11 ''a'' = 10"
  by (simp add: sign_z_take bitLength_11 new_BigInteger16_def fromRadix16_def intAt_def)

lemma z_11_1: "sign_z 11 ''1'' = 1"
  by (simp add: sign_z_take bitLength_11 new_BigInteger16_def fromRadix16_def intAt_def)

lemma inverse_2_11: "modInverse 2 11 = Some 6"
  by (simp add: modInverse_def upto.simps)

lemma inverse_0_11: "modInverse 0 11 = None"
  by (simp add: modInverse_def upto.simps)

lemma inverse_6_11: "modInverse 6 11 = Some 2"
  by (simp add: modInverse_def upto.simps)

lemma inverse_1_11: "modInverse 1 11 = Some 1"
  by (simp add: modInverse_def upto.simps)

lemma sign_rs_23: "sign_rs key23 11 2 ''a'' = Inr (4, 0)"
  by (simp add: sign_rs_def key23_fields z_11_a inverse_2_11 modPow_def)

lemma sign_rs_67: "sign_rs key67 11 2 ''1'' = Inr (0, 6)"
  by (simp add: sign_rs_def key67_fields z_11_1 inverse_2_11 modPow_def)

lemma sign_23:
  "signWithMessageHash st23 ''a'' =
     (Inr ''3006020104020100'',
      \<lparr>self = key23, prng = zero_tape\<lparr>drawn := 1, requests := [(2, 10)]\<rparr>\<rparr>)"
  by (simp add: signWithMessageHash_def st23_def key23_fields draw_zero_tape sign_rs_23 enc_4_0
      )

lemma sign_67:
  "signWithMessageHash st67 ''1'' =
     (Inr ''3006020100020106'',
      \<lparr>self = key67, prng = zero_tape\<lparr>drawn := 1, requests := [(2, 10)]\<rparr>\<rparr>)"
  by (simp add: signWithMessageHash_def st67_def key67_fields draw_zero_tape sign_rs_67 enc_0_6
      )

lemma verify_rs_23_4_0: "verify_rs key23 ''a'' 4 0 = Inl NoInverse"
  by (simp add: verify_rs_def key23_fields compareTo_def inverse_0_11)

lemma verify_rs_67_0_6: "verify_rs key67 ''1'' 0 6 = Inr True"
  by (simp add: verify_rs_def key67_fields compareTo_def inverse_6_11 verify_z_sign_z z_11_1
      modPow_def)

lemma verify_rs_23_12_1: "verify_rs key23 ''a'' 12 1 = Inl InvalidSignature"
  by (simp add: verify_rs_def key23_fields compareTo_def)

lemma verify_23:
  "verifyWithMessageHash st23 ''a'' ''3006020104020100'' = (Inl NoInverse, st23)"
  by (simp add: verifyWithMessageHash_def parse_4_0 st23_def verify_rs_23_4_0)

lemma verify_67:
  "verifyWithMessageHash st67 ''1'' ''3006020100020106'' = (Inr True, st67)"
  by (simp add: verifyWithMessageHash_def parse_0_6 st67_def verify_rs_67_0_6)

lemma prime_47: "is_prime 47" by code_simp
lemma dp47: "domain_parameters 47 23 2" by (simp add: domain_parameters_def prime_23 prime_47)

section \<open>The claims\<close>

subsection \<open>C1: verifying a signature produced by the signer\<close>

lemma verifyWithMessageHash_fst:
  "fst (verifyWithMessageHash st sHashHex hSigVal) =
     (case parseASN1Signature hSigVal of
        Inl e \<Rightarrow> Inl e
      | Inr (r, s) \<Rightarrow> verify_rs (self st) sHashHex r s)"
  by (simp add: verifyWithMessageHash_def split: sum.splits)

text \<open>
  Claim C1 says that, for valid domain parameters, a key pair with \<open>y = g^x mod p\<close>
  and a digest of at least \<open>bitlength(q)\<close> bits, verifying what \<open>signWithMessageHash\<close>
  returns gives \<open>true\<close>.  The code does not do that when the signer computes
  \<open>s = 0\<close>: the source's own comment says \<open>s != 0\<close>, but nothing checks it and no new
  \<open>k\<close> is drawn.  With the valid key \<open>p = 23\<close>, \<open>q = 11\<close>, \<open>g = 2\<close>, \<open>x = 3\<close>, \<open>y = 8\<close>,
  the digest \<open>a\<close> (\<open>z = 10\<close>) and the draw \<open>k = 2\<close>, the signer returns the
  encoding of \<open>(r, s) = (4, 0)\<close>, and the verifier, given that signature, does not
  return \<open>true\<close>: \<open>0\<close> has no inverse modulo \<open>q\<close>.  (Lemmas \<open>sign_returns\<close>
  and \<open>sign_verify_nonzero_s\<close> show that \<open>s = 0\<close> is the only obstacle for
  \<open>q \<ge> 3\<close>.)
\<close>

theorem signed_digest_not_verified:
  "private_key (self st23)
   \<and> fst (signWithMessageHash st23 ''a'') = Inr ''3006020104020100''
   \<and> parseASN1Signature ''3006020104020100'' = Inr (4, 0)
   \<and> fst (verifyWithMessageHash (snd (signWithMessageHash st23 ''a'')) ''a''
          ''3006020104020100'') = Inl NoInverse"
  by (simp add: verifyWithMessageHash_fst parse_4_0 sign_23 verify_rs_23_4_0)
     (simp add: st23_def private_key23)


subsection \<open>C2: the range check of the verifier\<close>

text \<open>
  Claim C2 says that the verifier checks \<open>0 < r < q\<close> and \<open>0 < s < q\<close> and accepts no
  signature with \<open>r = 0\<close>, \<open>r = q\<close>, \<open>s = 0\<close> or \<open>s = q\<close>.  The source's comments say
  \<open>0 < r < q\<close> and \<open>0 < s < q\<close>, but the code throws only for \<open>r < 0\<close>, \<open>r > q\<close>,
  \<open>s < 0\<close> and \<open>s > q\<close>, so the four boundary values pass the check (lemma
  \<open>verify_rs_boundary_not_rejected\<close>).  With the valid
  key \<open>p = 67\<close>, \<open>q = 11\<close>, \<open>g = 25\<close>, \<open>y = 14\<close> and the digest \<open>1\<close>, the signature
  \<open>(r, s) = (0, 6)\<close> is accepted: the verifier returns \<open>true\<close>.
\<close>

theorem zero_r_accepted:
  "private_key (self st67)
   \<and> parseASN1Signature ''3006020100020106'' = Inr (0, 6)
   \<and> verify_rs (self st67) ''1'' 0 6 = Inr True
   \<and> verifyWithMessageHash st67 ''1'' ''3006020100020106'' = (Inr True, st67)"
  by (simp add: parse_0_6 verify_67) (simp add: st67_def private_key67 verify_rs_67_0_6)


subsection \<open>C3: no retry when r or s is zero\<close>

text \<open>
  Claim C3 says that the signer discards \<open>k\<close> and draws a new one whenever \<open>r = 0\<close>
  or \<open>s = 0\<close>, so that the returned signature never holds a zero.  The source's
  comments say \<open>r != 0\<close> and \<open>s != 0\<close>, but the code has no such check and no loop: the
  random source is asked once, and the pair is encoded as computed.  With the key
  \<open>p = 67\<close>, \<open>q = 11\<close>, \<open>g = 25\<close>, \<open>x = 3\<close>, the digest \<open>1\<close> and the draw \<open>k = 2\<close> the
  signer returns the encoding of \<open>(0, 6)\<close>; with the key \<open>p = 23\<close>, \<open>q = 11\<close>, \<open>g = 2\<close>,
  \<open>x = 3\<close>, the digest \<open>a\<close> and the draw \<open>k = 2\<close> it returns the encoding of \<open>(4, 0)\<close>.
  Either time one number has been drawn from the random source.
\<close>

theorem zero_r_or_s_returned:
  "signWithMessageHash st67 ''1'' =
     (Inr ''3006020100020106'',
      \<lparr>self = key67, prng = zero_tape\<lparr>drawn := 1, requests := [(2, 10)]\<rparr>\<rparr>)
   \<and> parseASN1Signature ''3006020100020106'' = Inr (0, 6)
   \<and> signWithMessageHash st23 ''a'' =
     (Inr ''3006020104020100'',
      \<lparr>self = key23, prng = zero_tape\<lparr>drawn := 1, requests := [(2, 10)]\<rparr>\<rparr>)
   \<and> parseASN1Signature ''3006020104020100'' = Inr (4, 0)"
  by (simp only: sign_67 sign_23 parse_0_6 parse_4_0 simp_thms)


subsection \<open>C4: what the decoder rejects\<close>

text \<open>
  The decoder on three containers that are not well-formed.  It reads a container cut
  off before the last content octet as \<open>(4, 0)\<close> and one with the tag \<^verbatim>\<open>31\<close> in place of
  \<^verbatim>\<open>30\<close> as \<open>(4, 5)\<close>; it rejects one whose second element has the tag \<^verbatim>\<open>03\<close>.
\<close>

lemma hex_prefix_truncated: "hex_prefix ''30060201040201'' = [48, 6, 2, 1, 4, 2, 1]"
  by (simp add: intAt_def)

lemma getVbyList_truncated:
  "getVbyList ''30060201040201'' 0 [0] ''02'' = Inr ''04''"
  "getVbyList ''30060201040201'' 0 [1] ''02'' = Inr ''''"
  unfolding getVbyList_def drop_0 hex_prefix_truncated
  by (simp_all add: read_header_def getV_def hex_of_bytes_def hex_of_byte_def hexchar_def)

lemma parse_truncated: "parseASN1Signature ''30060201040201'' = Inr (4, 0)"
  unfolding parseASN1Signature_def getVbyList_truncated sum.case
  by (simp add: new_BigInteger16_def fromRadix16_def intAt_def)

lemma hex_prefix_set: "hex_prefix ''3106020104020105'' = [49, 6, 2, 1, 4, 2, 1, 5]"
  by (simp add: intAt_def)

lemma getVbyList_set:
  "getVbyList ''3106020104020105'' 0 [0] ''02'' = Inr ''04''"
  "getVbyList ''3106020104020105'' 0 [1] ''02'' = Inr ''05''"
  unfolding getVbyList_def drop_0 hex_prefix_set
  by (simp_all add: read_header_def getV_def hex_of_bytes_def hex_of_byte_def hexchar_def)

lemma parse_set: "parseASN1Signature ''3106020104020105'' = Inr (4, 5)"
  unfolding parseASN1Signature_def getVbyList_set sum.case
  by (simp add: new_BigInteger16_def fromRadix16_def intAt_def)

lemma hex_prefix_wrong_tag: "hex_prefix ''3006020104030105'' = [48, 6, 2, 1, 4, 3, 1, 5]"
  by (simp add: intAt_def)

lemma getVbyList_wrong_tag:
  "getVbyList ''3006020104030105'' 0 [1] ''02'' = Inl DecodingError"
  unfolding getVbyList_def drop_0 hex_prefix_wrong_tag
  by (simp add: read_header_def getV_def hex_of_bytes_def hex_of_byte_def hexchar_def)

text \<open>
  Claim C4 says that \<open>parseASN1Signature\<close> raises \<open>MalformedSignature\<close> for every
  input that is not a well-formed two-integer sequence container, and names trailing
  bytes among the cases.  The source has no check of its own: it asks the lookup for
  the children \<open>[0]\<close> and \<open>[1]\<close> with the tag \<^verbatim>\<open>02\<close>, and the lookup does not look at what
  follows the container.  The encoding of \<open>(4, 5)\<close> followed by the byte \<^verbatim>\<open>00\<close> is not
  a well-formed container, and it is parsed into \<open>(4, 5)\<close>:
\<close>

theorem trailing_byte_parsed:
  "\<not> signature_container ''300602010402010500''
   \<and> parseASN1Signature ''300602010402010500'' = Inr (4, 5)"
  using trailing_byte_no_container sequence_parsed [OF enc_4_5, of "''00''"] by simp

text \<open>
  Claim C4, amended: \<open>parseASN1Signature\<close> raises no error but \<open>MalformedSignature\<close>,
  and it raises it exactly when the lookup cannot read child \<open>[0]\<close> or child \<open>[1]\<close> of
  the input as an integer (there is no such child, or its tag is not \<^verbatim>\<open>02\<close>).  It
  checks neither the number of elements after the second nor what follows the
  container: for what the encoder writes for any sequence, followed by any
  characters, the result is \<open>(r, s)\<close> when the first two items are the integers \<open>r\<close>
  and \<open>s\<close>, and \<open>MalformedSignature\<close> when the sequence has fewer than two items or
  one of the first two is no integer.
\<close>

theorem rejected_iff_no_integer_at_0_or_1:
  "(\<forall>e. parseASN1Signature h = Inl e \<longrightarrow> e = MalformedSignature)
   \<and> (parseASN1Signature h = Inl MalformedSignature \<longleftrightarrow>
        (\<exists>e. getVbyList h 0 [0] ''02'' = Inl e) \<or> (\<exists>e. getVbyList h 0 [1] ''02'' = Inl e))
   \<and> (jsonToASN1HEX (Seq items) = Inr c \<longrightarrow>
        parseASN1Signature (c @ t) =
          (case items of
             Int_bigint r # Int_bigint s # others \<Rightarrow> Inr (r, s)
           | _ \<Rightarrow> Inl MalformedSignature))"
proof (intro conjI allI impI)
  fix e
  assume "parseASN1Signature h = Inl e"
  then show "e = MalformedSignature" by (rule parseASN1Signature_Inl)
next
  show "parseASN1Signature h = Inl MalformedSignature \<longleftrightarrow>
        (\<exists>e. getVbyList h 0 [0] ''02'' = Inl e) \<or> (\<exists>e. getVbyList h 0 [1] ''02'' = Inl e)"
    by (auto simp: parseASN1Signature_def split: sum.splits)
next
  assume "jsonToASN1HEX (Seq items) = Inr c"
  then show "parseASN1Signature (c @ t) =
          (case items of
             Int_bigint r # Int_bigint s # others \<Rightarrow> Inr (r, s)
           | _ \<Rightarrow> Inl MalformedSignature)"
    by (rule sequence_parsed)
qed

theorem rejected_iff_no_integer_at_0_or_1_witness:
  "getVbyList ''3006020104030105'' 0 [1] ''02'' = Inl DecodingError
   \<and> parseASN1Signature ''3006020104030105'' = Inl MalformedSignature
   \<and> jsonToASN1HEX (Seq [Int_bigint 4, Int_bigint 5, Int_bigint 6]) =
       Inr ''3009020104020105020106''
   \<and> parseASN1Signature ''300902010402010502010600'' = Inr (4, 5)
   \<and> jsonToASN1HEX (Seq [Int_bigint 4]) = Inr ''3003020104''
   \<and> parseASN1Signature ''3003020104'' = Inl MalformedSignature"
proof -
  note a = rejected_iff_no_integer_at_0_or_1 [of "''3006020104030105''"]
  from a [THEN conjunct2, THEN conjunct1] getVbyList_wrong_tag
  have 1: "parseASN1Signature ''3006020104030105'' = Inl MalformedSignature" by blast
  from rejected_iff_no_integer_at_0_or_1
    [of _ "[Int_bigint 4, Int_bigint 5, Int_bigint 6]" "''3009020104020105020106''" "''00''",
      THEN conjunct2, THEN conjunct2] enc_4_5_6
  have 2: "parseASN1Signature ''300902010402010502010600'' = Inr (4, 5)" by simp
  from rejected_iff_no_integer_at_0_or_1
    [of _ "[Int_bigint 4]" "''3003020104''" "[]", THEN conjunct2, THEN conjunct2] enc_4
  have 3: "parseASN1Signature ''3003020104'' = Inl MalformedSignature" by simp
  from 1 2 3 getVbyList_wrong_tag enc_4_5_6 enc_4 show ?thesis by simp
qed


subsection \<open>C5: decoding an encoded pair\<close>

text \<open>
  Claim C5: for all integers \<open>r\<close> and \<open>s\<close> with \<open>0 < r < q\<close> and \<open>0 < s < q\<close>,
  \<open>parseASN1Signature\<close> applied to the output of \<open>jsonToASN1HEX\<close> for the sequence of
  \<open>r\<close> and \<open>s\<close> yields \<open>(r, s)\<close>.  The encoder has an output whenever the numbers
  are below \<open>256 ^ L\<close> for an \<open>L\<close> of at most \<open>2 ^ 64\<close>.  Encoder and decoder are
  the ones modelled from the spec.
\<close>

theorem signature_roundtrip:
  assumes "0 < r" and "r < q" and "0 < s" and "s < q"
  shows "(\<forall>h. jsonToASN1HEX (Seq [Int_bigint r, Int_bigint s]) = Inr h \<longrightarrow>
            parseASN1Signature h = Inr (r, s))
       \<and> (\<forall>L. q \<le> 256 ^ L \<and> L \<le> 2 ^ 64 \<longrightarrow>
            (\<exists>h. jsonToASN1HEX (Seq [Int_bigint r, Int_bigint s]) = Inr h \<and>
                 parseASN1Signature h = Inr (r, s)))"
proof (intro conjI allI impI)
  fix h
  assume "jsonToASN1HEX (Seq [Int_bigint r, Int_bigint s]) = Inr h"
  then show "parseASN1Signature h = Inr (r, s)" by (rule encoded_parsed)
next
  fix L :: nat
  assume L: "q \<le> 256 ^ L \<and> L \<le> 2 ^ 64"
  with assms have "0 \<le> r" "r < 256 ^ L" "0 \<le> s" "s < 256 ^ L" "L \<le> 2 ^ 64" by simp_all
  then obtain h where h: "jsonToASN1HEX (Seq [Int_bigint r, Int_bigint s]) = Inr h"
    using encodable by blast
  from h encoded_parsed [OF h]
  show "\<exists>h. jsonToASN1HEX (Seq [Int_bigint r, Int_bigint s]) = Inr h \<and>
            parseASN1Signature h = Inr (r, s)" by blast
qed

theorem signature_roundtrip_witness:
  "(0::int) < 4 \<and> (4::int) < 11 \<and> (0::int) < 5 \<and> (5::int) < 11
   \<and> jsonToASN1HEX (Seq [Int_bigint 4, Int_bigint 5]) = Inr ''3006020104020105''
   \<and> parseASN1Signature ''3006020104020105'' = Inr (4, 5)"
proof -
  have "(0::int) < 4" "(4::int) < 11" "(0::int) < 5" "(5::int) < 11" by simp_all
  from signature_roundtrip [OF this] enc_4_5 show ?thesis by simp
qed


subsection \<open>C6: the range the ephemeral secret is drawn from\<close>

text \<open>
  Claim C6: for every subgroup order \<open>q\<close>, \<open>signWithMessageHash\<close> draws \<open>k\<close> by a
  single call to the random source over the inclusive range \<open>[2, q - 1]\<close>, so \<open>k = 1\<close>
  is never produced.  The call is the only one the signer makes (the record of
  requests grows by exactly \<open>(2, q - 1)\<close>), every \<open>k\<close> the source returns for it lies
  in the range, the rest of the signer runs on that \<open>k\<close>, and for \<open>q < 3\<close>, where the
  range is empty, the signer fails.
\<close>

theorem k_drawn_once_from_2_to_q_minus_1:
  assumes "dsa_q (self st) = Some q"
  shows "requests (prng (snd (signWithMessageHash st sHashHex))) = requests (prng st) @ [(2, q - 1)]
     \<and> drawn (prng (snd (signWithMessageHash st sHashHex))) =
           drawn (prng st) + (if q < 3 then 0 else 1)
     \<and> (\<forall>k rs. getRandomBigIntegerMinToMax 2 (q - 1) (prng st) = (Inr k, rs) \<longrightarrow>
           2 \<le> k \<and> k \<le> q - 1 \<and> k \<noteq> 1 \<and>
           signWithMessageHash st sHashHex =
             (case sign_rs (self st) q k sHashHex of
                Inl e \<Rightarrow> (Inl e, st\<lparr>prng := rs\<rparr>)
              | Inr (r, s) \<Rightarrow>
                  (jsonToASN1HEX (Seq [Int_bigint r, Int_bigint s]), st\<lparr>prng := rs\<rparr>)))
     \<and> (q < 3 \<longrightarrow> fst (signWithMessageHash st sHashHex) = Inl EmptyRange)"
proof (intro conjI allI impI)
  show "requests (prng (snd (signWithMessageHash st sHashHex))) = requests (prng st) @ [(2, q - 1)]"
    by (simp only: signWithMessageHash_prng [OF assms] getRandomBigIntegerMinToMax_requests)
  show "drawn (prng (snd (signWithMessageHash st sHashHex))) =
           drawn (prng st) + (if q < 3 then 0 else 1)"
    by (simp add: signWithMessageHash_prng [OF assms] getRandomBigIntegerMinToMax_drawn)
next
  fix k rs
  assume d: "getRandomBigIntegerMinToMax 2 (q - 1) (prng st) = (Inr k, rs)"
  from getRandomBigIntegerMinToMax_range [OF d] show "2 \<le> k" and "k \<le> q - 1" and "k \<noteq> 1"
    by simp_all
  from d assms show "signWithMessageHash st sHashHex =
             (case sign_rs (self st) q k sHashHex of
                Inl e \<Rightarrow> (Inl e, st\<lparr>prng := rs\<rparr>)
              | Inr (r, s) \<Rightarrow>
                  (jsonToASN1HEX (Seq [Int_bigint r, Int_bigint s]), st\<lparr>prng := rs\<rparr>))"
    by (simp add: signWithMessageHash_def split: sum.splits)
next
  assume "q < 3"
  then show "fst (signWithMessageHash st sHashHex) = Inl EmptyRange"
    using assms by (simp add: signWithMessageHash_def getRandomBigIntegerMinToMax_def Let_def)
qed

theorem k_drawn_once_from_2_to_q_minus_1_witness:
  "dsa_q (self st23) = Some 11
   \<and> requests (prng (snd (signWithMessageHash st23 ''a''))) = [(2, 10)]
   \<and> drawn (prng (snd (signWithMessageHash st23 ''a''))) = 1
   \<and> getRandomBigIntegerMinToMax 2 (11 - 1) (prng st23) =
       (Inr 2, zero_tape\<lparr>drawn := 1, requests := [(2, 10)]\<rparr>)"
proof -
  have q: "dsa_q (self st23) = Some 11" by (simp add: st23_def key23_fields)
  have d: "getRandomBigIntegerMinToMax 2 (11 - 1) (prng st23) =
       (Inr 2, zero_tape\<lparr>drawn := 1, requests := [(2, 10)]\<rparr>)"
    by (simp add: st23_def draw_zero_tape)
  have z: "requests (prng st23) = []" "drawn (prng st23) = 0"
    by (simp_all add: st23_def zero_tape_def)
  note t = k_drawn_once_from_2_to_q_minus_1 [OF q, of "''a''"]
  from t have r: "requests (prng (snd (signWithMessageHash st23 ''a''))) =
      requests (prng st23) @ [(2, 11 - 1)]"
    by (rule conjunct1)
  from t have n: "drawn (prng (snd (signWithMessageHash st23 ''a''))) =
      drawn (prng st23) + (if (11::int) < 3 then 0 else 1)"
    by (rule conjunct2 [THEN conjunct1])
  from q d show ?thesis by (simp add: r n z)
qed


subsection \<open>C7: the value z of signer and verifier\<close>

text \<open>
  Claim C7 says that signer and verifier derive the same \<open>z\<close> from the digest, namely
  the leftmost \<open>min(N, outlen)\<close> bits with \<open>N = bitlength(q)\<close>.  Both compute the same
  value (lemma \<open>verify_z_sign_z\<close>), and it is the spec's whenever \<open>N\<close> is a multiple
  of 4 (lemma \<open>sign_z_leftmost_bits\<close>); but it is not the leftmost \<open>min(N, outlen)\<close>
  bits in general, although the comment in the source says so.  Both take the first
  \<open>N / 4\<close> characters of the digest with \<open>substr\<close>, which truncates the count.  For
  \<open>q = 23\<close> (\<open>N = 5\<close>; a valid \<open>q\<close>, for instance with \<open>p = 47\<close> and \<open>g = 2\<close>,
  lemma \<open>dp47\<close>) and the digest \<open>ff\<close> the code has \<open>z = 15\<close>, the leftmost 4 bits,
  where the leftmost 5 bits are 31.
\<close>

theorem z_not_leftmost_bits:
  "sign_z 23 ''ff'' = 15 \<and> verify_z 23 ''ff'' = 15 \<and> leftmost_bits_z 23 ''ff'' = 31"
proof -
  have v: "new_BigInteger16 (take (bitLength 23 div 4) ''ff'') = 15"
    by (simp add: bitLength_23 new_BigInteger16_def fromRadix16_def intAt_def)
  have w: "new_BigInteger16 ''ff'' = 255"
    by (simp add: new_BigInteger16_def fromRadix16_def intAt_def)
  have "leftmost_bits_z 23 ''ff'' = 31"
    by (simp add: leftmost_bits_z_def bitLength_23 w)
  with v show ?thesis by (simp add: sign_z_take verify_z_take)
qed


subsection \<open>C8: what signing and verifying change\<close>

text \<open>
  Claim C8: apart from the signer's use of the random source, \<open>signWithMessageHash\<close>
  and \<open>verifyWithMessageHash\<close> change nothing: the key object (\<open>p\<close>, \<open>q\<close>, \<open>g\<close>, \<open>y\<close>,
  \<open>x\<close>, \<open>type\<close> and the two flags) is the same afterwards, the signer leaves the
  tape of the random source as it was and only moves along it, and the verifier
  leaves the whole state, random source included, unchanged.
\<close>

theorem sign_verify_frame:
  "snd (signWithMessageHash st sHashHex) =
     st\<lparr>prng := prng (snd (signWithMessageHash st sHashHex))\<rparr>
   \<and> self (snd (signWithMessageHash st sHashHex)) = self st
   \<and> entropy (prng (snd (signWithMessageHash st sHashHex))) = entropy (prng st)
   \<and> snd (verifyWithMessageHash st sHashHex hSigVal) = st"
  by (simp add: signWithMessageHash_def verifyWithMessageHash_def
      getRandomBigIntegerMinToMax_def Let_def split: option.splits sum.splits prod.splits)


subsection \<open>C9: a signature whose r is not below q\<close>

text \<open>
  Claim C9 says that for a decodable signature with \<open>r \<ge> q\<close> and \<open>0 < s < q\<close> the
  verifier returns \<open>false\<close>.  That holds for \<open>r = q\<close> only; for \<open>r > q\<close> the range check
  throws (\<open>invalid DSA signature\<close>) and nothing is returned.  With the key \<open>p = 23\<close>,
  \<open>q = 11\<close>, \<open>g = 2\<close>, \<open>y = 8\<close> and the signature \<open>(12, 1)\<close>:
\<close>

theorem verify_r_above_q_throws:
  "public_key (self st23)
   \<and> parseASN1Signature ''300602010c020101'' = Inr (12, 1)
   \<and> fst (verifyWithMessageHash st23 ''a'' ''300602010c020101'') = Inl InvalidSignature
   \<and> fst (verifyWithMessageHash st23 ''a'' ''300602010c020101'') \<noteq> Inr False"
  by (simp add: verifyWithMessageHash_fst parse_12_1)
     (simp add: st23_def public_key23 verify_rs_23_12_1)

text \<open>
  Claim C9, amended: for every digest, every valid public key and every decodable
  signature with \<open>r \<ge> q\<close> and \<open>0 < s < q\<close>, the verifier never returns \<open>true\<close>: for
  \<open>r = q\<close>, which the range check lets pass, it returns \<open>false\<close> (the \<open>v\<close> it compares
  with \<open>r\<close> is below \<open>q\<close>), and for \<open>r > q\<close> it throws \<open>invalid DSA signature\<close>.
\<close>

theorem verify_r_not_below_q:
  assumes "public_key (self st)" and "dsa_q (self st) = Some q"
    and "parseASN1Signature hSigVal = Inr (r, s)" and "q \<le> r" and "0 < s" and "s < q"
  shows "fst (verifyWithMessageHash st sHashHex hSigVal) =
           (if r = q then Inr False else Inl InvalidSignature)
       \<and> fst (verifyWithMessageHash st sHashHex hSigVal) \<noteq> Inr True"
proof -
  from assms(1) obtain p q' g y where f: "dsa_p (self st) = Some p" "dsa_q (self st) = Some q'"
    "dsa_g (self st) = Some g" "dsa_y (self st) = Some y" and d: "domain_parameters p q' g"
    by (rule public_key_fields)
  from f(2) assms(2) have [simp]: "q' = q" by simp
  from d have q: "is_prime q" by (simp add: domain_parameters_def)
  have v: "fst (verifyWithMessageHash st sHashHex hSigVal) = verify_rs (self st) sHashHex r s"
    by (simp add: verifyWithMessageHash_def assms(3))
  show ?thesis
  proof (cases "r = q")
    case True
    from verify_rs_r_eq_q [OF assms(2) f(1) f(3) f(4) q assms(5,6)] True v show ?thesis by simp
  next
    case False
    with assms(4) have "q < r" by simp
    then have "r < 0 \<or> q < r \<or> s < 0 \<or> q < s" by blast
    then have "verify_rs (self st) sHashHex r s = Inl InvalidSignature"
      by (rule verify_rs_out_of_range [OF assms(2)])
    with False v show ?thesis by simp
  qed
qed

theorem verify_r_not_below_q_witness:
  "public_key (self st23) \<and> dsa_q (self st23) = Some 11
   \<and> parseASN1Signature ''300602010b020101'' = Inr (11, 1)
   \<and> (11::int) \<le> 11 \<and> (0::int) < 1 \<and> (1::int) < 11
   \<and> fst (verifyWithMessageHash st23 ''a'' ''300602010b020101'') = Inr False"
proof -
  have k: "public_key (self st23)" by (simp add: st23_def public_key23)
  have q: "dsa_q (self st23) = Some 11" by (simp add: st23_def key23_fields)
  have "(11::int) \<le> 11" "(0::int) < 1" "(1::int) < 11" by simp_all
  from verify_r_not_below_q [OF k q parse_11_1 this, of "''a''"] k q parse_11_1
  show ?thesis by simp
qed


subsection \<open>C10: z when the bit length of q is no multiple of 4\<close>

text \<open>
  Claim C10: for every \<open>q\<close> whose bit length \<open>N\<close> is not a multiple of 4, signer and
  verifier form \<open>z\<close> from the leftmost \<open>\<lfloor>N / 4\<rfloor>\<close> hexadecimal digits of the digest
  only (\<open>substr\<close> truncates the count \<open>N / 4\<close>), that is from fewer than \<open>N\<close> bits:
  \<open>4 \<lfloor>N / 4\<rfloor> < N\<close>, and \<open>z\<close> is below \<open>2 ^ (4 \<lfloor>N / 4\<rfloor>)\<close>.
\<close>

theorem z_from_truncated_digit_count:
  assumes "bitLength q mod 4 \<noteq> 0"
  shows "sign_z q sHashHex = new_BigInteger16 (take (bitLength q div 4) sHashHex)
       \<and> verify_z q sHashHex = new_BigInteger16 (take (bitLength q div 4) sHashHex)
       \<and> 4 * (bitLength q div 4) < bitLength q
       \<and> sign_z q sHashHex < 2 ^ (4 * (bitLength q div 4))
       \<and> verify_z q sHashHex < 2 ^ (4 * (bitLength q div 4))"
proof -
  let ?n = "bitLength q div 4"
  have lt: "4 * ?n < bitLength q" using assms by presburger
  have "new_BigInteger16 (take ?n sHashHex) < 16 ^ length (take ?n sHashHex)"
    using new_BigInteger16_bounds by blast
  also have "\<dots> \<le> (16::int) ^ ?n" by (intro power_increasing) simp_all
  also have "(16::int) ^ ?n = 2 ^ (4 * ?n)" by (simp add: power_mult)
  finally have "new_BigInteger16 (take ?n sHashHex) < 2 ^ (4 * ?n)" .
  then show ?thesis using lt by (simp only: sign_z_take verify_z_take simp_thms)
qed

theorem z_from_truncated_digit_count_witness:
  "bitLength 23 mod 4 \<noteq> 0 \<and> sign_z 23 ''ff'' = 15 \<and> verify_z 23 ''ff'' = 15
   \<and> 4 * (bitLength 23 div 4) < bitLength 23"
proof -
  have h: "bitLength 23 mod 4 \<noteq> 0" by (simp add: bitLength_23)
  have v: "new_BigInteger16 (take (bitLength 23 div 4) ''ff'') = 15"
    by (simp add: bitLength_23 new_BigInteger16_def fromRadix16_def intAt_def)
  from z_from_truncated_digit_count [OF h, of "''ff''"] h v show ?thesis by simp
qed


end
